theory Spec2Isabelle
  imports Main "HOL-Library.AList" "HOL-Library.Multiset"
begin

section \<open>Data model\<close>

text \<open>
  \<^verbatim>\<open>interface Transaction { payer: string; points: number; timestamp: Date }\<close>.
  Points are integers; a timestamp is the value of \<^verbatim>\<open>getTime()\<close>, the milliseconds
  since the epoch, which is all the service reads of a \<^verbatim>\<open>Date\<close>. Non-integral
  numbers, \<^verbatim>\<open>NaN\<close>, infinities and invalid dates are outside the model.

  The service is embedded twice. The definitions under the source's names compute on
  exact integers. The definitions with the suffix \<open>_ieee\<close> compute as the service
  does, in double precision: every sum and difference is rounded to the nearest
  double. The two agree as long as the absolute amounts of the ledger and the
  amount to spend add up to at most \<open>2 ^ 53\<close>; above, they differ.
\<close>

record Transaction =
  payer :: string
  points :: int
  timestamp :: int

text \<open>\<^verbatim>\<open>interface SpendResult { payer: string; points: number }\<close>\<close>

record SpendResult =
  spent_payer :: string
  spent_points :: int

text \<open>
  Both failures of \<^verbatim>\<open>spendPoints\<close> are a \<^verbatim>\<open>BadRequestException\<close>; they differ in
  the message: \<^verbatim>\<open>'Points to spend must be positive'\<close>, and
  \<^verbatim>\<open>`Insufficient points. Available: ${totalPoints}, Requested: ${pointsToSpend}`\<close>.
\<close>

datatype error =
    MustBePositive
  | InsufficientPoints (available: int) (requested: int)

section \<open>Adding events\<close>

text \<open>
  \<^verbatim>\<open>addTransaction(transactionDto)\<close> builds the transaction from the fields of the
  request, pushes it at the end of \<^verbatim>\<open>this.transactions\<close> and returns it. The request
  is taken with its timestamp already read by \<^verbatim>\<open>new Date(transactionDto.timestamp)\<close>.
\<close>

definition addTransaction :: "Transaction list \<Rightarrow> Transaction \<Rightarrow> Transaction \<times> Transaction list" where
  "addTransaction txs transactionDto =
     (let transaction = \<lparr>payer = payer transactionDto, points = points transactionDto,
                         timestamp = timestamp transactionDto\<rparr>
      in (transaction, txs @ [transaction]))"

text \<open>The ledger after a sequence of requests to add, from a given ledger.\<close>

definition add_all :: "Transaction list \<Rightarrow> Transaction list \<Rightarrow> Transaction list" where
  "add_all txs dtos = foldl (\<lambda>ledger dto. snd (addTransaction ledger dto)) txs dtos"

section \<open>Ledger queries\<close>

text \<open>\<^verbatim>\<open>this.transactions.reduce((sum, t) => sum + t.points, 0)\<close>\<close>

definition getTotalPoints :: "Transaction list \<Rightarrow> int" where
  "getTotalPoints txs = foldl (\<lambda>sum t. sum + points t) 0 txs"

text \<open>
  The unnamed variant of the service:
  \<^verbatim>\<open>this.transactions.filter((t) => t.payer === payer).reduce((sum, t) => sum + t.points, 0)\<close>
\<close>

definition getPayerBalance :: "Transaction list \<Rightarrow> string \<Rightarrow> int" where
  "getPayerBalance txs p =
     foldl (\<lambda>sum t. sum + points t) 0 (filter (\<lambda>t. payer t = p) txs)"

text \<open>\<^verbatim>\<open>m.get(k) || 0\<close>, also \<^verbatim>\<open>balances[k] || 0\<close>: a missing key reads as 0.\<close>

definition get_or_zero :: "(string \<rightharpoonup> int) \<Rightarrow> string \<Rightarrow> int" where
  "get_or_zero m k = (case m k of None \<Rightarrow> 0 | Some v \<Rightarrow> v)"

text \<open>
  Step 2 of the named service: the map \<^verbatim>\<open>payerBalances\<close>, filled by one pass over
  \<^verbatim>\<open>this.transactions\<close>. It is only read by key, so it is a partial function.
\<close>

definition payerBalances :: "Transaction list \<Rightarrow> (string \<rightharpoonup> int)" where
  "payerBalances txs =
     foldl (\<lambda>m t. m(payer t \<mapsto> get_or_zero m (payer t) + points t)) Map.empty txs"

text \<open>
  \<^verbatim>\<open>getBalances()\<close> fills an object the same way; the result is read as a mapping
  from payer to balance. A payer named like a member of \<^verbatim>\<open>Object.prototype\<close>
  (\<^verbatim>\<open>__proto__\<close>, \<^verbatim>\<open>constructor\<close>) is outside the model.
\<close>

definition getBalances :: "Transaction list \<Rightarrow> (string \<rightharpoonup> int)" where
  "getBalances txs =
     foldl (\<lambda>balances t. balances(payer t \<mapsto> get_or_zero balances (payer t) + points t))
       Map.empty txs"

section \<open>The allocation walk\<close>

text \<open>
  \<^verbatim>\<open>spendingByPayer\<close> is a JavaScript \<^verbatim>\<open>Map\<close>, iterated at the end by
  \<^verbatim>\<open>forEach\<close>: its keys keep the order of their first \<^verbatim>\<open>set\<close>, and a \<^verbatim>\<open>set\<close> on
  a present key replaces the value in place. This is an association list under
  \<^const>\<open>AList.update\<close>.
\<close>

type_synonym spending = "(string \<times> int) list"

definition spent :: "spending \<Rightarrow> string \<Rightarrow> int" where
  "spent sp k = get_or_zero (map_of sp) k"

text \<open>
  One iteration of the loop body after the \<^verbatim>\<open>break\<close> test, on the state
  \<^verbatim>\<open>(spendingByPayer, remainingToSpend)\<close>. The parameter \<open>bal\<close> is the way the
  payer's balance is read: the precomputed map in the named service,
  \<^verbatim>\<open>this.getPayerBalance(payer)\<close> in the unnamed variant.
\<close>

definition step :: "(string \<Rightarrow> int) \<Rightarrow> Transaction \<Rightarrow> spending \<times> int \<Rightarrow> spending \<times> int" where
  "step bal t st =
     (let spendingByPayer = fst st;
          remainingToSpend = snd st;
          transactionPoints = points t;
          currentPayerBalance = bal (payer t);
          currentSpending = spent spendingByPayer (payer t)
      in
        if transactionPoints > 0 then
          let availableFromTransaction = min transactionPoints remainingToSpend;
              newPayerBalance = currentPayerBalance - currentSpending - availableFromTransaction
          in
            if newPayerBalance \<ge> 0 then
              (AList.update (payer t) (currentSpending + availableFromTransaction) spendingByPayer,
               remainingToSpend - availableFromTransaction)
            else
              let maxCanSpend = currentPayerBalance - currentSpending in
                if maxCanSpend > 0 then
                  (AList.update (payer t) (currentSpending + maxCanSpend) spendingByPayer,
                   remainingToSpend - maxCanSpend)
                else (spendingByPayer, remainingToSpend)
        else
          let pointsToGiveBack = min \<bar>transactionPoints\<bar> currentSpending in
            if pointsToGiveBack > 0 then
              (AList.update (payer t) (currentSpending - pointsToGiveBack) spendingByPayer,
               remainingToSpend + pointsToGiveBack)
            else (spendingByPayer, remainingToSpend))"

text \<open>
  \<^verbatim>\<open>for (const transaction of sortedTransactions) { if (remainingToSpend <= 0) break; ... }\<close>
\<close>

fun walk :: "(string \<Rightarrow> int) \<Rightarrow> Transaction list \<Rightarrow> spending \<times> int \<Rightarrow> spending \<times> int" where
  "walk bal [] st = st"
| "walk bal (t # ts) st =
     (if snd st \<le> 0 then st else walk bal ts (step bal t st))"

text \<open>
  \<^verbatim>\<open>spendingByPayer.forEach((points, payer) => { if (points > 0) result.push({ payer, points: -points }) })\<close>
\<close>

definition to_result :: "spending \<Rightarrow> SpendResult list" where
  "to_result sp =
     foldl (\<lambda>result (p, pts).
              if pts > 0 then result @ [\<lparr>spent_payer = p, spent_points = - pts\<rparr>] else result)
       [] sp"

text \<open>
  \<^verbatim>\<open>result.forEach((spend) => { this.transactions.push({ payer: spend.payer, points: spend.points, timestamp: now }) })\<close>
\<close>

definition record_spending :: "Transaction list \<Rightarrow> SpendResult list \<Rightarrow> int \<Rightarrow> Transaction list" where
  "record_spending txs result now =
     foldl (\<lambda>transactions spend.
              transactions @ [\<lparr>payer = spent_payer spend, points = spent_points spend, timestamp = now\<rparr>])
       txs result"

section \<open>\<^verbatim>\<open>spendPoints\<close>\<close>

text \<open>
  The ledger \<^verbatim>\<open>this.transactions\<close> is passed in and returned; \<open>now\<close> is the
  value of \<^verbatim>\<open>new Date()\<close> in the call. An exception leaves the ledger as it was.
  \<^verbatim>\<open>Array.prototype.sort\<close> is stable, as \<^const>\<open>sort_key\<close> is.
\<close>

definition spendPoints ::
  "Transaction list \<Rightarrow> int \<Rightarrow> int \<Rightarrow> (error + SpendResult list) \<times> Transaction list" where
  "spendPoints txs pointsToSpend now =
     (if pointsToSpend < 0 then (Inl MustBePositive, txs)
      else
        let totalPoints = getTotalPoints txs in
          if totalPoints < pointsToSpend then (Inl (InsufficientPoints totalPoints pointsToSpend), txs)
          else
            let sortedTransactions = sort_key timestamp txs;
                balances = payerBalances txs;
                final = walk (get_or_zero balances) sortedTransactions ([], pointsToSpend);
                result = to_result (fst final)
            in (Inr result, record_spending txs result now))"

text \<open>
  The unnamed variant (\<^verbatim>\<open>src/unnamed/part_001\<close>): no precomputed map; every
  iteration calls \<^verbatim>\<open>this.getPayerBalance(payer)\<close> on the unchanged ledger.
\<close>

definition spendPoints_unnamed ::
  "Transaction list \<Rightarrow> int \<Rightarrow> int \<Rightarrow> (error + SpendResult list) \<times> Transaction list" where
  "spendPoints_unnamed txs pointsToSpend now =
     (if pointsToSpend < 0 then (Inl MustBePositive, txs)
      else
        let totalPoints = getTotalPoints txs in
          if totalPoints < pointsToSpend then (Inl (InsufficientPoints totalPoints pointsToSpend), txs)
          else
            let sortedTransactions = sort_key timestamp txs;
                final = walk (getPayerBalance txs) sortedTransactions ([], pointsToSpend);
                result = to_result (fst final)
            in (Inr result, record_spending txs result now))"

section \<open>The service in double precision\<close>

text \<open>
  A JavaScript number is an IEEE 754 double, with a significand of 53 bits. The
  integers it holds are those of magnitude below \<open>2 ^ 53\<close> and, for every \<open>k\<close>,
  the multiples of \<open>2 ^ k\<close> of magnitude from \<open>2 ^ (52 + k)\<close> to \<open>2 ^ (53 + k)\<close>.
  \<open>spacing m\<close> is the distance \<open>2 ^ k\<close> between the doubles around \<open>m\<close>.
\<close>

function spacing :: "int \<Rightarrow> int" where
  "spacing m = (if m < 2 ^ 53 then 1 else 2 * spacing (m div 2))"
  by pat_completeness auto
termination
  by (relation "measure nat") auto

declare spacing.simps [simp del]

text \<open>
  Rounding to the nearest double, a tie going to the even significand; the sign is
  kept. The sum or difference of two integral doubles is the rounding of the exact
  integer result. Magnitudes from \<open>2 ^ 1024\<close> on, where the service computes an
  infinity, are outside the model.
\<close>

definition round_magnitude :: "int \<Rightarrow> int" where
  "round_magnitude m =
     (let u = spacing m; q = m div u; r = m mod u
      in (if u < 2 * r \<or> (u = 2 * r \<and> odd q) then q + 1 else q) * u)"

definition rnd :: "int \<Rightarrow> int" where
  "rnd n = sgn n * round_magnitude \<bar>n\<bar>"

text \<open>\<^verbatim>\<open>this.transactions.reduce((sum, t) => sum + t.points, 0)\<close>, each sum rounded.\<close>

definition getTotalPoints_ieee :: "Transaction list \<Rightarrow> int" where
  "getTotalPoints_ieee txs = foldl (\<lambda>sum t. rnd (sum + points t)) 0 txs"

text \<open>Step 2 of the named service, each sum rounded.\<close>

definition payerBalances_ieee :: "Transaction list \<Rightarrow> (string \<rightharpoonup> int)" where
  "payerBalances_ieee txs =
     foldl (\<lambda>m t. m(payer t \<mapsto> rnd (get_or_zero m (payer t) + points t))) Map.empty txs"

text \<open>
  The loop body with every \<^verbatim>\<open>+\<close>, \<^verbatim>\<open>-\<close>, \<^verbatim>\<open>+=\<close> and \<^verbatim>\<open>-=\<close> rounded;
  \<^verbatim>\<open>currentPayerBalance - currentSpending - availableFromTransaction\<close> is two
  subtractions, left to right. \<^verbatim>\<open>Math.min\<close>, \<^verbatim>\<open>Math.abs\<close>, the comparisons and the
  negation are exact.
\<close>

definition step_ieee :: "(string \<Rightarrow> int) \<Rightarrow> Transaction \<Rightarrow> spending \<times> int \<Rightarrow> spending \<times> int" where
  "step_ieee bal t st =
     (let spendingByPayer = fst st;
          remainingToSpend = snd st;
          transactionPoints = points t;
          currentPayerBalance = bal (payer t);
          currentSpending = spent spendingByPayer (payer t)
      in
        if transactionPoints > 0 then
          let availableFromTransaction = min transactionPoints remainingToSpend;
              newPayerBalance =
                rnd (rnd (currentPayerBalance - currentSpending) - availableFromTransaction)
          in
            if newPayerBalance \<ge> 0 then
              (AList.update (payer t) (rnd (currentSpending + availableFromTransaction))
                 spendingByPayer,
               rnd (remainingToSpend - availableFromTransaction))
            else
              let maxCanSpend = rnd (currentPayerBalance - currentSpending) in
                if maxCanSpend > 0 then
                  (AList.update (payer t) (rnd (currentSpending + maxCanSpend)) spendingByPayer,
                   rnd (remainingToSpend - maxCanSpend))
                else (spendingByPayer, remainingToSpend)
        else
          let pointsToGiveBack = min \<bar>transactionPoints\<bar> currentSpending in
            if pointsToGiveBack > 0 then
              (AList.update (payer t) (rnd (currentSpending - pointsToGiveBack)) spendingByPayer,
               rnd (remainingToSpend + pointsToGiveBack))
            else (spendingByPayer, remainingToSpend))"

fun walk_ieee :: "(string \<Rightarrow> int) \<Rightarrow> Transaction list \<Rightarrow> spending \<times> int \<Rightarrow> spending \<times> int" where
  "walk_ieee bal [] st = st"
| "walk_ieee bal (t # ts) st =
     (if snd st \<le> 0 then st else walk_ieee bal ts (step_ieee bal t st))"

text \<open>
  \<^verbatim>\<open>spendPoints\<close> of the named service in double precision. The amounts of the
  ledger and the amount to spend are integral doubles.
\<close>

definition spendPoints_ieee ::
  "Transaction list \<Rightarrow> int \<Rightarrow> int \<Rightarrow> (error + SpendResult list) \<times> Transaction list" where
  "spendPoints_ieee txs pointsToSpend now =
     (if pointsToSpend < 0 then (Inl MustBePositive, txs)
      else
        let totalPoints = getTotalPoints_ieee txs in
          if totalPoints < pointsToSpend then (Inl (InsufficientPoints totalPoints pointsToSpend), txs)
          else
            let sortedTransactions = sort_key timestamp txs;
                balances = payerBalances_ieee txs;
                final = walk_ieee (get_or_zero balances) sortedTransactions ([], pointsToSpend);
                result = to_result (fst final)
            in (Inr result, record_spending txs result now))"

text \<open>The sum of the absolute amounts of a ledger.\<close>

definition magnitude :: "Transaction list \<Rightarrow> int" where
  "magnitude txs = sum_list (map (\<lambda>t. \<bar>points t\<bar>) txs)"

section \<open>Observations on a call\<close>

text \<open>
  What a returned sequence deducts from one payer: the absolute value of the
  payer's first entry, 0 when the payer has none; and the sum over all entries.
\<close>

definition deducted :: "SpendResult list \<Rightarrow> string \<Rightarrow> int" where
  "deducted res p =
     (case find (\<lambda>s. spent_payer s = p) res of None \<Rightarrow> 0 | Some s \<Rightarrow> \<bar>spent_points s\<bar>)"

definition total_deducted :: "SpendResult list \<Rightarrow> int" where
  "total_deducted res = sum_list (map (\<lambda>s. \<bar>spent_points s\<bar>) res)"



text \<open>
  The greedy allocation in the words of the specification: walking the events in
  the given order, each event is drawn for the minimum of its amount and of what
  remains to allocate. The result lists the draw of every event.
\<close>

fun greedy :: "int \<Rightarrow> Transaction list \<Rightarrow> (string \<times> int) list" where
  "greedy remaining [] = []"
| "greedy remaining (t # ts) =
     (payer t, min (points t) remaining) # greedy (remaining - min (points t) remaining) ts"

definition drawn_from :: "(string \<times> int) list \<Rightarrow> string \<Rightarrow> int" where
  "drawn_from draws p = sum_list (map snd (filter (\<lambda>d. fst d = p) draws))"

section \<open>The reference scenario\<close>

text \<open>
  The five events of the README, with their timestamps in milliseconds since the
  epoch (UTC): 2024-06-30T10:00, 2024-07-02T14:00, 2024-06-30T11:00,
  2024-07-01T14:00 and 2024-06-30T15:00.
\<close>

definition scenario :: "Transaction list" where
  "scenario =
     [\<lparr>payer = ''SHOPIFY'', points = 300, timestamp = 1719741600000\<rparr>,
      \<lparr>payer = ''SHOPIFY'', points = 1000, timestamp = 1719928800000\<rparr>,
      \<lparr>payer = ''EBAY'', points = 200, timestamp = 1719745200000\<rparr>,
      \<lparr>payer = ''AMAZON'', points = 10000, timestamp = 1719842400000\<rparr>,
      \<lparr>payer = ''SHOPIFY'', points = - 200, timestamp = 1719759600000\<rparr>]"

definition scenario_result :: "SpendResult list" where
  "scenario_result =
     [\<lparr>spent_payer = ''SHOPIFY'', spent_points = - 100\<rparr>,
      \<lparr>spent_payer = ''EBAY'', spent_points = - 200\<rparr>,
      \<lparr>spent_payer = ''AMAZON'', spent_points = - 4700\<rparr>]"

section \<open>Further ledgers\<close>

text \<open>A refund of payer A dated between A's credit and B's credit; the total is 50.\<close>

definition refund_ledger :: "Transaction list" where
  "refund_ledger =
     [\<lparr>payer = ''A'', points = 100, timestamp = 1\<rparr>,
      \<lparr>payer = ''B'', points = 10, timestamp = 3\<rparr>,
      \<lparr>payer = ''A'', points = - 60, timestamp = 2\<rparr>]"

text \<open>Payer B has only a debit, hence a negative balance; the total is 50.\<close>

definition debt_ledger :: "Transaction list" where
  "debt_ledger =
     [\<lparr>payer = ''A'', points = 100, timestamp = 1\<rparr>,
      \<lparr>payer = ''B'', points = - 50, timestamp = 2\<rparr>]"

text \<open>Credits only, inserted out of chronological order; the total is 180.\<close>

definition credits_ledger :: "Transaction list" where
  "credits_ledger =
     [\<lparr>payer = ''A'', points = 100, timestamp = 3\<rparr>,
      \<lparr>payer = ''B'', points = 50, timestamp = 1\<rparr>,
      \<lparr>payer = ''A'', points = 30, timestamp = 2\<rparr>]"

text \<open>
  Amounts above \<open>2 ^ 53\<close>, all of them doubles: \<open>18014398509481984\<close> is
  \<open>2 ^ 54\<close>, around which the doubles are the multiples of 4.
\<close>

definition rounding_ledger :: "Transaction list" where
  "rounding_ledger =
     [\<lparr>payer = ''A'', points = 1, timestamp = 1\<rparr>,
      \<lparr>payer = ''B'', points = 18014398509481984, timestamp = 2\<rparr>]"

definition rounding_refund_ledger :: "Transaction list" where
  "rounding_refund_ledger =
     [\<lparr>payer = ''A'', points = 18014398509481992, timestamp = 2\<rparr>,
      \<lparr>payer = ''A'', points = 6, timestamp = 1\<rparr>,
      \<lparr>payer = ''A'', points = - 4, timestamp = 3\<rparr>]"

section \<open>The invariant of the walk\<close>

text \<open>
  On a state of the loop started with \<open>x\<close> to spend: the keys of the spending map
  are distinct, every payer's spending lies between 0 and its balance (0 when the
  balance is negative), what is spent and what remains add up to \<open>x\<close>, and what
  remains is not negative.
\<close>

definition walk_inv :: "(string \<Rightarrow> int) \<Rightarrow> int \<Rightarrow> spending \<times> int \<Rightarrow> bool" where
  "walk_inv bal x st \<longleftrightarrow>
     distinct (map fst (fst st)) \<and>
     (\<forall>k. 0 \<le> spent (fst st) k \<and> spent (fst st) k \<le> max 0 (bal k)) \<and>
     sum_list (map snd (fst st)) + snd st = x \<and> 0 \<le> snd st"

section \<open>Folds of the service as sums, maps and appends\<close>

lemma foldl_points: "foldl (\<lambda>sum t. sum + points t) a xs = a + sum_list (map points xs)"
  by (induction xs arbitrary: a) simp_all

lemma getTotalPoints_sum: "getTotalPoints txs = sum_list (map points txs)"
  by (simp add: getTotalPoints_def foldl_points)

lemma getPayerBalance_sum:
  "getPayerBalance txs p = sum_list (map points (filter (\<lambda>t. payer t = p) txs))"
  by (simp add: getPayerBalance_def foldl_points)

lemma get_or_zero_upd:
  "get_or_zero (m(k \<mapsto> v)) k' = (if k' = k then v else get_or_zero m k')"
  by (simp add: get_or_zero_def)

lemma balances_foldl:
  "get_or_zero (foldl (\<lambda>m t. m(payer t \<mapsto> get_or_zero m (payer t) + points t)) m txs) p
     = get_or_zero m p + sum_list (map points (filter (\<lambda>t. payer t = p) txs))"
  by (induction txs arbitrary: m) (simp_all add: get_or_zero_upd)

lemma get_or_zero_empty: "get_or_zero Map.empty k = 0"
  by (simp add: get_or_zero_def)

lemma payerBalances_lookup: "get_or_zero (payerBalances txs) = getPayerBalance txs"
  by (rule ext) (simp add: payerBalances_def balances_foldl getPayerBalance_sum get_or_zero_empty)

lemma to_result_foldl:
  "foldl (\<lambda>result (p, pts).
              if pts > 0 then result @ [\<lparr>spent_payer = p, spent_points = - pts\<rparr>] else result) acc sp
   = acc @ map (\<lambda>(p, pts). \<lparr>spent_payer = p, spent_points = - pts\<rparr>) (filter (\<lambda>(p, pts). pts > 0) sp)"
  by (induction sp arbitrary: acc) (auto split: prod.splits)

lemma to_result_map_filter:
  "to_result sp = map (\<lambda>(p, pts). \<lparr>spent_payer = p, spent_points = - pts\<rparr>) (filter (\<lambda>(p, pts). pts > 0) sp)"
  by (simp add: to_result_def to_result_foldl)

lemma record_spending_foldl:
  "foldl (\<lambda>transactions spend.
              transactions @ [\<lparr>payer = spent_payer spend, points = spent_points spend, timestamp = now\<rparr>])
       txs result
   = txs @ map (\<lambda>spend. \<lparr>payer = spent_payer spend, points = spent_points spend, timestamp = now\<rparr>) result"
  by (induction result arbitrary: txs) simp_all

lemma record_spending_append:
  "record_spending txs result now
   = txs @ map (\<lambda>spend. \<lparr>payer = spent_payer spend, points = spent_points spend, timestamp = now\<rparr>) result"
  by (simp add: record_spending_def record_spending_foldl)

lemma to_result_negative: "s \<in> set (to_result sp) \<Longrightarrow> spent_points s < 0"
  by (auto simp: to_result_map_filter)

lemma spendPoints_success:
  "spendPoints txs x now = (Inr res, txs') \<longleftrightarrow>
     0 \<le> x \<and> x \<le> getTotalPoints txs \<and>
     res = to_result (fst (walk (getPayerBalance txs) (sort_key timestamp txs) ([], x))) \<and>
     txs' = record_spending txs res now"
  by (auto simp: spendPoints_def Let_def payerBalances_lookup)

section \<open>One iteration of the loop, and the invariant\<close>

lemma spent_Nil: "spent [] k = 0"
  by (simp add: spent_def get_or_zero_def)

lemma spent_update: "spent (AList.update k v sp) k' = (if k' = k then v else spent sp k')"
  by (simp add: spent_def update_conv' get_or_zero_def)

lemma sum_update:
  "sum_list (map snd (AList.update k v sp)) = sum_list (map snd sp) - spent sp k + v"
  by (induction sp) (auto simp: spent_def get_or_zero_def)

lemma spent_key: "spent sp k \<noteq> 0 \<Longrightarrow> k \<in> fst ` set sp"
  by (auto simp: spent_def get_or_zero_def split: option.splits dest: map_of_SomeD intro: rev_image_eqI)

lemma spent_entry: "distinct (map fst sp) \<Longrightarrow> (k, v) \<in> set sp \<Longrightarrow> spent sp k = v"
  by (simp add: spent_def get_or_zero_def)

lemma step_cases [consumes 1, case_names draw give_back skip]:
  assumes "0 < snd st"
  obtains
    (draw) d where "0 < points t" "0 < d" "d \<le> points t" "d \<le> snd st"
      "spent (fst st) (payer t) + d \<le> bal (payer t)"
      "d = min (points t) (snd st) \<or> spent (fst st) (payer t) + d = bal (payer t)"
      "step bal t st = (AList.update (payer t) (spent (fst st) (payer t) + d) (fst st), snd st - d)"
  | (give_back) g where "points t \<le> 0" "0 < g" "g \<le> spent (fst st) (payer t)" "g \<le> \<bar>points t\<bar>"
      "step bal t st = (AList.update (payer t) (spent (fst st) (payer t) - g) (fst st), snd st + g)"
  | (skip) "step bal t st = st"
proof (cases "0 < points t")
  case True
  let ?a = "min (points t) (snd st)"
  let ?cs = "spent (fst st) (payer t)"
  show ?thesis
  proof (cases "0 \<le> bal (payer t) - ?cs - ?a")
    case safe: True
    show ?thesis
      by (rule draw [of ?a]) (use True safe assms in \<open>simp_all add: step_def Let_def\<close>)
  next
    case clamp: False
    show ?thesis
    proof (cases "0 < bal (payer t) - ?cs")
      case pos: True
      show ?thesis
        by (rule draw [of "bal (payer t) - ?cs"])
           (use True clamp pos assms in \<open>simp_all add: step_def Let_def\<close>)
    next
      case False
      show ?thesis
        by (rule skip) (use True clamp False in \<open>simp add: step_def Let_def prod_eq_iff\<close>)
    qed
  qed
next
  case False
  let ?cs = "spent (fst st) (payer t)"
  let ?g = "min \<bar>points t\<bar> ?cs"
  show ?thesis
  proof (cases "0 < ?g")
    case True
    show ?thesis
      by (rule give_back [of ?g]) (use False True in \<open>simp_all add: step_def Let_def\<close>)
  next
    case nog: False
    show ?thesis
      by (rule skip) (use False nog in \<open>auto simp: step_def Let_def prod_eq_iff\<close>)
  qed
qed

lemma walk_invariant:
  assumes "P st" and "\<And>t st. P st \<Longrightarrow> 0 < snd st \<Longrightarrow> P (step bal t st)"
  shows "P (walk bal ts st)"
  using assms(1)
proof (induction ts arbitrary: st)
  case Nil
  then show ?case by simp
next
  case (Cons t ts)
  then show ?case by (simp add: assms(2))
qed

lemma walk_append: "walk bal (xs @ ys) st = walk bal ys (walk bal xs st)"
proof (induction xs arbitrary: st)
  case Nil
  show ?case by simp
next
  case (Cons x xs)
  show ?case
  proof (cases "snd st \<le> 0")
    case True
    then show ?thesis by (cases ys) simp_all
  next
    case False
    then show ?thesis by (simp add: Cons.IH)
  qed
qed

lemma walk_inv_init: "0 \<le> x \<Longrightarrow> walk_inv bal x ([], x)"
  by (simp add: walk_inv_def spent_Nil)

lemma walk_inv_step:
  assumes "walk_inv bal x st" "0 < snd st"
  shows "walk_inv bal x (step bal t st)"
  using assms(2)
proof (cases rule: step_cases [where t = t and bal = bal])
  case (draw d)
  with assms show ?thesis
    by (auto simp: walk_inv_def spent_update sum_update distinct_update)
next
  case (give_back g)
  from assms(1) have "spent (fst st) (payer t) \<le> max 0 (bal (payer t))"
    by (simp add: walk_inv_def)
  with give_back(2) have "spent (fst st) (payer t) - g \<le> max 0 (bal (payer t))"
    by linarith
  with give_back assms show ?thesis
    by (auto simp: walk_inv_def spent_update sum_update distinct_update)
next
  case skip
  with assms show ?thesis by simp
qed

lemma walk_inv_walk: "walk_inv bal x st \<Longrightarrow> walk_inv bal x (walk bal ts st)"
  by (rule walk_invariant) (simp_all add: walk_inv_step)

lemma walk_inv_final: "0 \<le> x \<Longrightarrow> walk_inv bal x (walk bal ts ([], x))"
  by (simp add: walk_inv_walk walk_inv_init)

section \<open>From the spending map to the returned sequence\<close>

lemma to_result_Cons:
  "to_result ((k, v) # sp) =
     (if v > 0 then [\<lparr>spent_payer = k, spent_points = - v\<rparr>] else []) @ to_result sp"
  by (simp add: to_result_map_filter)

lemma to_result_payers: "spent_payer ` set (to_result sp) \<subseteq> fst ` set sp"
  by (auto simp: to_result_map_filter intro: rev_image_eqI)

lemma deducted_absent: "p \<notin> spent_payer ` set res \<Longrightarrow> deducted res p = 0"
  by (induction res) (auto simp: deducted_def)

lemma deducted_to_result:
  assumes "distinct (map fst sp)" "\<forall>k. 0 \<le> spent sp k"
  shows "deducted (to_result sp) p = spent sp p"
  using assms
proof (induction sp)
  case Nil
  show ?case by (simp add: to_result_map_filter deducted_def spent_Nil)
next
  case (Cons kv sp)
  obtain k v where kv: "kv = (k, v)" by (cases kv)
  from Cons.prems have d: "distinct (map fst sp)" and k: "k \<notin> fst ` set sp"
    by (simp_all add: kv)
  have other: "spent ((k, v) # sp) q = spent sp q" if "q \<noteq> k" for q
    using that by (simp add: spent_def get_or_zero_def)
  have here: "spent ((k, v) # sp) k = v"
    by (simp add: spent_def get_or_zero_def)
  have nn: "\<forall>q. 0 \<le> spent sp q"
  proof
    fix q
    show "0 \<le> spent sp q"
    proof (cases "q = k")
      case True
      with k spent_key [of sp k] show ?thesis by auto
    next
      case False
      with Cons.prems(2) other show ?thesis by (metis kv)
    qed
  qed
  have IH: "deducted (to_result sp) p = spent sp p"
    using Cons.IH d nn by simp
  show ?case
  proof (cases "p = k")
    case True
    from Cons.prems(2) here have v: "0 \<le> v" by (metis kv)
    from k to_result_payers [of sp] have "k \<notin> spent_payer ` set (to_result sp)" by blast
    then have z: "deducted (to_result sp) k = 0" by (rule deducted_absent)
    show ?thesis
    proof (cases "0 < v")
      case pos: True
      then show ?thesis by (simp add: kv True to_result_Cons deducted_def here)
    next
      case False
      with v have "v = 0" by simp
      with here have "spent ((k, v) # sp) k = 0" by simp
      moreover have "to_result ((k, v) # sp) = to_result sp"
        using \<open>v = 0\<close> by (simp add: to_result_Cons)
      ultimately show ?thesis by (simp add: kv True z)
    qed
  next
    case False
    then show ?thesis
      by (simp add: kv to_result_Cons deducted_def other IH [unfolded deducted_def])
  qed
qed

lemma total_deducted_to_result:
  assumes "\<forall>(k, v) \<in> set sp. 0 \<le> v"
  shows "total_deducted (to_result sp) = sum_list (map snd sp)"
  using assms
  by (induction sp) (auto simp: total_deducted_def to_result_map_filter)

lemma entries_nonneg:
  assumes "distinct (map fst sp)" "\<forall>k. 0 \<le> spent sp k"
  shows "\<forall>(k, v) \<in> set sp. 0 \<le> v"
  using assms spent_entry by fastforce

lemma walk_inv_total:
  assumes "walk_inv bal x st"
  shows "total_deducted (to_result (fst st)) = x - snd st"
proof -
  from assms have "\<forall>(k, v) \<in> set (fst st). 0 \<le> v"
    by (intro entries_nonneg) (simp_all add: walk_inv_def)
  then have "total_deducted (to_result (fst st)) = sum_list (map snd (fst st))"
    by (rule total_deducted_to_result)
  with assms show ?thesis by (simp add: walk_inv_def)
qed

lemma walk_inv_deducted:
  assumes "walk_inv bal x st"
  shows "deducted (to_result (fst st)) p = spent (fst st) p"
  using assms by (intro deducted_to_result) (simp_all add: walk_inv_def)


section \<open>The order of the first draws\<close>







section \<open>Ledgers of credits only\<close>

lemma sum_filter_sort_key:
  fixes g :: "'a \<Rightarrow> int"
  shows "sum_list (map g (filter P (sort_key f xs))) = sum_list (map g (filter P xs))"
proof -
  have "mset (map g (filter P (sort_key f xs))) = mset (map g (filter P xs))"
    by simp
  then show ?thesis by (metis sum_mset_sum_list)
qed

lemma credits_sum_nonneg:
  "\<forall>t \<in> set ts. 0 < points t \<Longrightarrow> 0 \<le> sum_list (map points (filter P ts))"
  by (induction ts) auto

lemma greedy_nothing_left:
  "\<forall>t \<in> set ts. 0 < points t \<Longrightarrow> greedy 0 ts = map (\<lambda>t. (payer t, 0)) ts"
  by (induction ts) simp_all

lemma drawn_from_nothing: "drawn_from (map (\<lambda>t. (payer t, 0)) ts) p = 0"
  by (induction ts) (simp_all add: drawn_from_def)

lemma greedy_sum:
  assumes "\<forall>t \<in> set ts. 0 < points t" "0 \<le> rem"
  shows "sum_list (map snd (greedy rem ts)) = min rem (sum_list (map points ts))"
  using assms
proof (induction ts arbitrary: rem)
  case Nil
  then show ?case by simp
next
  case (Cons t ts)
  then have pos: "0 < points t" and rest: "\<forall>t \<in> set ts. 0 < points t" by simp_all
  have nn: "0 \<le> sum_list (map points ts)"
    using credits_sum_nonneg [OF rest, of "\<lambda>t. True"] by simp
  have "0 \<le> rem - min (points t) rem" by simp
  from Cons.IH [OF rest this]
  have "sum_list (map snd (greedy (rem - min (points t) rem) ts))
          = min (rem - min (points t) rem) (sum_list (map points ts))" .
  with pos nn Cons.prems(2) show ?case by (simp add: min_def)
qed

lemma credit_step:
  assumes "0 < points t" "0 < rem" "spent sp (payer t) + points t \<le> bal (payer t)"
  shows "step bal t (sp, rem) =
           (AList.update (payer t) (spent sp (payer t) + min (points t) rem) sp,
            rem - min (points t) rem)"
proof -
  from assms(3) have "0 \<le> bal (payer t) - spent sp (payer t) - min (points t) rem"
    by linarith
  with assms(1) show ?thesis by (simp add: step_def Let_def)
qed

lemma greedy_walk:
  assumes "\<forall>t \<in> set ts. 0 < points t" "0 \<le> rem"
    and "\<forall>p. spent sp p + sum_list (map points (filter (\<lambda>t. payer t = p) ts)) \<le> bal p"
  shows "spent (fst (walk bal ts (sp, rem))) p = spent sp p + drawn_from (greedy rem ts) p"
  using assms
proof (induction ts arbitrary: sp rem)
  case Nil
  show ?case by (simp add: drawn_from_def)
next
  case (Cons t ts)
  then have pos: "0 < points t" and rest: "\<forall>t \<in> set ts. 0 < points t" by simp_all
  show ?case
  proof (cases "rem \<le> 0")
    case True
    with Cons.prems(2) have "rem = 0" by simp
    moreover have "greedy 0 (t # ts) = map (\<lambda>t. (payer t, 0)) (t # ts)"
      using Cons.prems(1) by (rule greedy_nothing_left)
    ultimately show ?thesis
      by (simp only: drawn_from_nothing) simp
  next
    case False
    then have rem: "0 < rem" by simp
    let ?d = "min (points t) rem"
    let ?sp = "AList.update (payer t) (spent sp (payer t) + ?d) sp"
    have tail_nn: "0 \<le> sum_list (map points (filter (\<lambda>u. payer u = payer t) ts))"
      using rest by (rule credits_sum_nonneg)
    from Cons.prems(3) have here:
      "spent sp (payer t) + (points t + sum_list (map points (filter (\<lambda>u. payer u = payer t) ts)))
         \<le> bal (payer t)"
      by (drule_tac x = "payer t" in spec) simp
    with tail_nn have room: "spent sp (payer t) + points t \<le> bal (payer t)" by linarith
    have st: "step bal t (sp, rem) = (?sp, rem - ?d)"
      using pos rem room by (rule credit_step)
    have left: "0 \<le> rem - ?d" by simp
    have room': "\<forall>q. spent ?sp q + sum_list (map points (filter (\<lambda>u. payer u = q) ts)) \<le> bal q"
    proof
      fix q
      show "spent ?sp q + sum_list (map points (filter (\<lambda>u. payer u = q) ts)) \<le> bal q"
      proof (cases "q = payer t")
        case True
        with here show ?thesis by (simp add: spent_update)
      next
        case False
        with Cons.prems(3) [rule_format, of q] show ?thesis
          by (auto simp: spent_update)
      qed
    qed
    have "spent (fst (walk bal ts (?sp, rem - ?d))) p
            = spent ?sp p + drawn_from (greedy (rem - ?d) ts) p"
      using rest left room' by (rule Cons.IH)
    with rem st show ?thesis
      by (simp add: spent_update drawn_from_def)
  qed
qed

lemma greedy_walk_remaining:
  assumes "\<forall>t \<in> set ts. 0 < points t" "0 \<le> rem"
    and "\<forall>p. spent sp p + sum_list (map points (filter (\<lambda>t. payer t = p) ts)) \<le> bal p"
  shows "snd (walk bal ts (sp, rem)) = rem - sum_list (map snd (greedy rem ts))"
  using assms
proof (induction ts arbitrary: sp rem)
  case Nil
  show ?case by simp
next
  case (Cons t ts)
  then have pos: "0 < points t" and rest: "\<forall>t \<in> set ts. 0 < points t" by simp_all
  show ?case
  proof (cases "rem \<le> 0")
    case True
    with Cons.prems(2) have "rem = 0" by simp
    moreover have "greedy 0 (t # ts) = map (\<lambda>t. (payer t, 0)) (t # ts)"
      using Cons.prems(1) by (rule greedy_nothing_left)
    moreover have "sum_list (map snd (map (\<lambda>t. (payer t, 0::int)) (t # ts))) = 0"
      by (simp add: comp_def)
    ultimately have "sum_list (map snd (greedy rem (t # ts))) = 0"
      by (simp only:)
    with \<open>rem = 0\<close> show ?thesis by simp
  next
    case False
    then have rem: "0 < rem" by simp
    let ?d = "min (points t) rem"
    let ?sp = "AList.update (payer t) (spent sp (payer t) + ?d) sp"
    have tail_nn: "0 \<le> sum_list (map points (filter (\<lambda>u. payer u = payer t) ts))"
      using rest by (rule credits_sum_nonneg)
    from Cons.prems(3) have here:
      "spent sp (payer t) + (points t + sum_list (map points (filter (\<lambda>u. payer u = payer t) ts)))
         \<le> bal (payer t)"
      by (drule_tac x = "payer t" in spec) simp
    with tail_nn have room: "spent sp (payer t) + points t \<le> bal (payer t)" by linarith
    have st: "step bal t (sp, rem) = (?sp, rem - ?d)"
      using pos rem room by (rule credit_step)
    have left: "0 \<le> rem - ?d" by simp
    have room': "\<forall>q. spent ?sp q + sum_list (map points (filter (\<lambda>u. payer u = q) ts)) \<le> bal q"
    proof
      fix q
      show "spent ?sp q + sum_list (map points (filter (\<lambda>u. payer u = q) ts)) \<le> bal q"
      proof (cases "q = payer t")
        case True
        with here show ?thesis by (simp add: spent_update)
      next
        case False
        with Cons.prems(3) [rule_format, of q] show ?thesis
          by (auto simp: spent_update)
      qed
    qed
    have "snd (walk bal ts (?sp, rem - ?d)) = rem - ?d - sum_list (map snd (greedy (rem - ?d) ts))"
      using rest left room' by (rule Cons.IH)
    with rem st show ?thesis by simp
  qed
qed

lemma greedy_take: "greedy rem (take n ts) = take n (greedy rem ts)"
proof (induction ts arbitrary: n rem)
  case Nil
  show ?case by simp
next
  case (Cons t ts)
  show ?case by (cases n) (simp_all add: Cons.IH)
qed

lemma credits_prefix_sum:
  assumes "\<forall>t \<in> set ts. 0 < points t"
  shows "sum_list (map points (filter P (take n ts))) \<le> sum_list (map points (filter P ts))"
proof -
  have "\<forall>t \<in> set (drop n ts). 0 < points t"
    using assms by (auto dest: in_set_dropD)
  then have "0 \<le> sum_list (map points (filter P (drop n ts)))"
    by (rule credits_sum_nonneg)
  moreover have "sum_list (map points (filter P ts))
      = sum_list (map points (filter P (take n ts))) + sum_list (map points (filter P (drop n ts)))"
    by (metis append_take_drop_id filter_append map_append sum_list_append)
  ultimately show ?thesis by simp
qed

section \<open>The reference scenario in any insertion order\<close>

lemma sum_points_mset:
  "sum_list (map points (filter P xs)) = sum_mset (image_mset points (filter_mset P (mset xs)))"
  by (metis mset_filter mset_map sum_mset_sum_list)

lemma getPayerBalance_perm: "mset xs = mset ys \<Longrightarrow> getPayerBalance xs = getPayerBalance ys"
  by (rule ext) (simp add: getPayerBalance_sum sum_points_mset)

lemma getTotalPoints_perm: "mset xs = mset ys \<Longrightarrow> getTotalPoints xs = getTotalPoints ys"
  by (metis getTotalPoints_sum mset_map sum_mset_sum_list)

lemma filter_distinct_key:
  "distinct (map f zs) \<Longrightarrow> k \<in> set zs \<Longrightarrow> filter (\<lambda>x. f k = f x) zs = [k]"
proof (induction zs)
  case Nil
  then show ?case by simp
next
  case (Cons z zs)
  show ?case
  proof (cases "k = z")
    case True
    from Cons.prems(1) have "\<forall>x \<in> set zs. f z \<noteq> f x" by auto
    then have "filter (\<lambda>x. f z = f x) zs = []" by (simp add: filter_empty_conv)
    with True show ?thesis by simp
  next
    case False
    with Cons.prems have "k \<in> set zs" "f k \<noteq> f z" by (auto simp: image_iff)
    with Cons show ?thesis by simp
  qed
qed

lemma sort_key_perm:
  assumes "mset xs = mset ys" "distinct (map f ys)"
  shows "sort_key f xs = sort_key f ys"
proof (rule properties_for_sort_key)
  show "mset (sort_key f ys) = mset xs" using assms(1) by simp
  show "sorted (map f (sort_key f ys))" by simp
  fix k
  assume "k \<in> set (sort_key f ys)"
  then have k: "k \<in> set ys" by simp
  with assms(1) have kx: "k \<in> set xs" by (metis set_mset_mset)
  from assms have dx: "distinct (map f xs)"
    by (metis mset_map mset_eq_imp_distinct_iff)
  have "mset (map f (sort_key f ys)) = mset (map f ys)" by simp
  with assms(2) have ds: "distinct (map f (sort_key f ys))"
    by (metis mset_eq_imp_distinct_iff)
  from k have ks: "k \<in> set (sort_key f ys)" by simp
  show "filter (\<lambda>x. f k = f x) (sort_key f ys) = filter (\<lambda>x. f k = f x) xs"
    by (simp only: filter_distinct_key [OF ds ks] filter_distinct_key [OF dx kx])
qed

lemma sum_absent_payer:
  "p \<notin> payer ` set txs \<Longrightarrow> sum_list (map points (filter (\<lambda>t. payer t = p) txs)) = 0"
  by (induction txs) auto

lemma balances_foldl_lookup:
  "foldl (\<lambda>balances t. balances(payer t \<mapsto> get_or_zero balances (payer t) + points t)) m txs p
     = (if p \<in> payer ` set txs
        then Some (get_or_zero m p + sum_list (map points (filter (\<lambda>t. payer t = p) txs)))
        else m p)"
proof (induction txs arbitrary: m)
  case Nil
  show ?case by simp
next
  case (Cons t txs)
  let ?F = "\<lambda>balances t. balances(payer t \<mapsto> get_or_zero balances (payer t) + points t)"
  let ?m = "m(payer t \<mapsto> get_or_zero m (payer t) + points t)"
  have "foldl ?F m (t # txs) p = foldl ?F ?m txs p"
    by (simp only: foldl_Cons)
  also have "\<dots> = (if p \<in> payer ` set txs
        then Some (get_or_zero ?m p + sum_list (map points (filter (\<lambda>t. payer t = p) txs)))
        else ?m p)"
    by (rule Cons.IH)
  also have "\<dots> = (if p \<in> payer ` set (t # txs)
        then Some (get_or_zero m p + sum_list (map points (filter (\<lambda>t. payer t = p) (t # txs))))
        else m p)"
    by (simp add: get_or_zero_upd sum_absent_payer)
  finally show ?case .
qed

lemma getBalances_lookup:
  "getBalances txs p = (if p \<in> payer ` set txs then Some (getPayerBalance txs p) else None)"
  by (simp add: getBalances_def balances_foldl_lookup getPayerBalance_sum get_or_zero_empty)

lemma getBalances_perm:
  assumes "mset xs = mset ys"
  shows "getBalances xs = getBalances ys"
proof (rule ext)
  fix p
  from assms have "set xs = set ys" by (metis set_mset_mset)
  with getPayerBalance_perm [OF assms] show "getBalances xs p = getBalances ys p"
    by (simp add: getBalances_lookup)
qed

lemma spendPoints_perm:
  assumes "mset xs = mset ys" "distinct (map timestamp ys)"
    and "spendPoints ys x now = (Inr res, ys @ new)"
  shows "spendPoints xs x now = (Inr res, xs @ new)"
proof -
  from assms(3) have ok: "0 \<le> x" "x \<le> getTotalPoints ys"
    and res: "res = to_result (fst (walk (getPayerBalance ys) (sort_key timestamp ys) ([], x)))"
    and new: "ys @ new = record_spending ys res now"
    by (simp_all add: spendPoints_success)
  from new have "new = map (\<lambda>s. \<lparr>payer = spent_payer s, points = spent_points s, timestamp = now\<rparr>) res"
    by (simp add: record_spending_append)
  then have "xs @ new = record_spending xs res now"
    by (simp add: record_spending_append)
  moreover have "sort_key timestamp xs = sort_key timestamp ys"
    using assms(1,2) by (rule sort_key_perm)
  ultimately show ?thesis
    using ok res getPayerBalance_perm [OF assms(1)] getTotalPoints_perm [OF assms(1)]
    by (simp add: spendPoints_success)
qed

lemma scenario_balances_after:
  "getBalances (scenario @ map (\<lambda>s. \<lparr>payer = spent_payer s, points = spent_points s, timestamp = now\<rparr>)
                              scenario_result)
     = [''SHOPIFY'' \<mapsto> 1000, ''EBAY'' \<mapsto> 0, ''AMAZON'' \<mapsto> 5300]"
  by (rule ext)
     (simp add: getBalances_def scenario_def scenario_result_def get_or_zero_def)

lemma snd_addTransaction: "snd (addTransaction txs dto) = txs @ [dto]"
  by (cases dto) (simp add: addTransaction_def Let_def)

lemma add_all_append: "add_all txs dtos = txs @ dtos"
proof -
  have "foldl (\<lambda>ledger dto. snd (addTransaction ledger dto)) txs dtos = txs @ dtos"
    by (induction dtos arbitrary: txs) (simp_all add: snd_addTransaction)
  then show ?thesis by (simp add: add_all_def)
qed

section \<open>Double precision is exact while magnitudes stay within 2 ^ 53\<close>

lemma spacing_small: "m < 2 ^ 53 \<Longrightarrow> spacing m = 1"
  by (subst spacing.simps) simp

lemma spacing_2_53: "spacing 9007199254740992 = 2"
  by (subst spacing.simps) (simp add: spacing_small)

lemma round_magnitude_exact:
  assumes "0 \<le> m" "m \<le> 2 ^ 53"
  shows "round_magnitude m = m"
proof (cases "m < 2 ^ 53")
  case True
  then show ?thesis by (simp add: round_magnitude_def spacing_small)
next
  case False
  with assms(2) have "m = 2 ^ 53" by simp
  then show ?thesis by (simp add: round_magnitude_def spacing_2_53 Let_def)
qed

lemma rnd_exact: "\<bar>n\<bar> \<le> 2 ^ 53 \<Longrightarrow> rnd n = n"
  by (simp add: rnd_def round_magnitude_exact mult_sgn_abs)

lemma rnd_exact_between: "- (2 ^ 53) \<le> n \<Longrightarrow> n \<le> 2 ^ 53 \<Longrightarrow> rnd n = n"
  by (rule rnd_exact) simp

lemma magnitude_nonneg: "0 \<le> magnitude txs"
  by (induction txs) (simp_all add: magnitude_def)

lemma magnitude_Cons: "magnitude (t # txs) = \<bar>points t\<bar> + magnitude txs"
  by (simp add: magnitude_def)

lemma abs_sum_filter: "\<bar>sum_list (map points (filter P txs))\<bar> \<le> magnitude txs"
  by (induction txs) (auto simp: magnitude_def)

lemma abs_getPayerBalance: "\<bar>getPayerBalance txs p\<bar> \<le> magnitude txs"
  by (simp add: getPayerBalance_sum abs_sum_filter)

lemma foldl_rnd_exact:
  assumes "\<bar>a\<bar> + magnitude txs \<le> 2 ^ 53"
  shows "foldl (\<lambda>sum t. rnd (sum + points t)) a txs = a + sum_list (map points txs)"
  using assms
proof (induction txs arbitrary: a)
  case Nil
  show ?case by simp
next
  case (Cons t txs)
  from Cons.prems have bound: "\<bar>a + points t\<bar> + magnitude txs \<le> 2 ^ 53"
    by (simp add: magnitude_Cons)
  with magnitude_nonneg [of txs] have "\<bar>a + points t\<bar> \<le> 2 ^ 53" by linarith
  then have "rnd (a + points t) = a + points t" by (rule rnd_exact)
  with Cons.IH [OF bound] show ?case by simp
qed

lemma getTotalPoints_ieee_exact:
  "magnitude txs \<le> 2 ^ 53 \<Longrightarrow> getTotalPoints_ieee txs = getTotalPoints txs"
  by (simp add: getTotalPoints_ieee_def getTotalPoints_sum foldl_rnd_exact)

lemma balances_foldl_rnd_exact:
  assumes "\<forall>p. \<bar>get_or_zero m p\<bar> + magnitude txs \<le> 2 ^ 53"
  shows "get_or_zero
           (foldl (\<lambda>m t. m(payer t \<mapsto> rnd (get_or_zero m (payer t) + points t))) m txs) p
         = get_or_zero m p + sum_list (map points (filter (\<lambda>t. payer t = p) txs))"
  using assms
proof (induction txs arbitrary: m)
  case Nil
  show ?case by simp
next
  case (Cons t txs)
  let ?v = "get_or_zero m (payer t) + points t"
  let ?m = "m(payer t \<mapsto> ?v)"
  from Cons.prems have here: "\<bar>get_or_zero m (payer t)\<bar> + (\<bar>points t\<bar> + magnitude txs) \<le> 2 ^ 53"
    by (simp add: magnitude_Cons)
  with magnitude_nonneg [of txs] have "\<bar>?v\<bar> \<le> 2 ^ 53" by linarith
  then have exact: "rnd ?v = ?v" by (rule rnd_exact)
  have next_bound: "\<forall>q. \<bar>get_or_zero ?m q\<bar> + magnitude txs \<le> 2 ^ 53"
  proof
    fix q
    show "\<bar>get_or_zero ?m q\<bar> + magnitude txs \<le> 2 ^ 53"
    proof (cases "q = payer t")
      case True
      with here show ?thesis by (simp add: get_or_zero_upd)
    next
      case False
      from Cons.prems have "\<bar>get_or_zero m q\<bar> + (\<bar>points t\<bar> + magnitude txs) \<le> 2 ^ 53"
        by (simp add: magnitude_Cons)
      with False show ?thesis by (simp add: get_or_zero_upd)
    qed
  qed
  let ?F = "\<lambda>m t. m(payer t \<mapsto> rnd (get_or_zero m (payer t) + points t))"
  have "get_or_zero (foldl ?F m (t # txs)) p = get_or_zero (foldl ?F ?m txs) p"
    by (simp only: foldl_Cons exact)
  also have "\<dots> = get_or_zero ?m p + sum_list (map points (filter (\<lambda>t. payer t = p) txs))"
    using next_bound by (rule Cons.IH)
  also have "\<dots> = get_or_zero m p + sum_list (map points (filter (\<lambda>t. payer t = p) (t # txs)))"
    by (simp add: get_or_zero_upd)
  finally show ?case .
qed

lemma payerBalances_ieee_exact:
  assumes "magnitude txs \<le> 2 ^ 53"
  shows "get_or_zero (payerBalances_ieee txs) = getPayerBalance txs"
proof (rule ext)
  fix p
  have "\<forall>p. \<bar>get_or_zero Map.empty p\<bar> + magnitude txs \<le> 2 ^ 53"
    using assms by (simp add: get_or_zero_empty)
  then show "get_or_zero (payerBalances_ieee txs) p = getPayerBalance txs p"
    unfolding payerBalances_ieee_def
    by (simp add: balances_foldl_rnd_exact getPayerBalance_sum get_or_zero_empty)
qed

lemma step_ieee_exact:
  assumes b: "\<bar>bal (payer t)\<bar> \<le> M"
    and c0: "0 \<le> spent sp (payer t)" and c1: "spent sp (payer t) \<le> max 0 (bal (payer t))"
    and r0: "0 < rem" and r1: "rem \<le> x" and m: "M + x \<le> 2 ^ 53"
  shows "step_ieee bal t (sp, rem) = step bal t (sp, rem)"
proof -
  let ?B = "bal (payer t)"
  let ?c = "spent sp (payer t)"
  let ?a = "min (points t) rem"
  let ?g = "min \<bar>points t\<bar> ?c"
  from b c0 c1 r0 r1 m have f1: "rnd (?B - ?c) = ?B - ?c"
    by (intro rnd_exact_between) linarith+
  show ?thesis
  proof (cases "0 < points t")
    case True
    with b c0 c1 r0 r1 m have f2: "rnd (?B - ?c - ?a) = ?B - ?c - ?a"
      by (intro rnd_exact_between) linarith+
    show ?thesis
    proof (cases "0 \<le> ?B - ?c - ?a")
      case safe: True
      with True b c0 c1 r0 r1 m have "rnd (?c + ?a) = ?c + ?a" "rnd (rem - ?a) = rem - ?a"
        by (intro rnd_exact_between; linarith)+
      with True safe f1 f2 show ?thesis
        by (simp add: step_ieee_def step_def Let_def)
    next
      case clamp: False
      show ?thesis
      proof (cases "0 < ?B - ?c")
        case True
        with \<open>0 < points t\<close> clamp b c0 c1 r0 r1 m
        have "rnd (?c + (?B - ?c)) = ?c + (?B - ?c)" "rnd (rem - (?B - ?c)) = rem - (?B - ?c)"
          by (intro rnd_exact_between; linarith)+
        with True \<open>0 < points t\<close> clamp f1 f2 show ?thesis
          by (simp add: step_ieee_def step_def Let_def)
      next
        case False
        with \<open>0 < points t\<close> clamp f1 f2 show ?thesis
          by (simp add: step_ieee_def step_def Let_def)
      qed
    qed
  next
    case False
    show ?thesis
    proof (cases "0 < ?g")
      case True
      with b c0 c1 r0 r1 m have "rnd (?c - ?g) = ?c - ?g" "rnd (rem + ?g) = rem + ?g"
        by (intro rnd_exact_between; linarith)+
      with False True show ?thesis
        by (simp add: step_ieee_def step_def Let_def)
    next
      case nog: False
      with False show ?thesis
        by (auto simp: step_ieee_def step_def Let_def)
    qed
  qed
qed

lemma walk_inv_remaining_le:
  assumes "walk_inv bal x st"
  shows "snd st \<le> x"
proof -
  from assms have "\<forall>(k, v) \<in> set (fst st). 0 \<le> v"
    by (intro entries_nonneg) (simp_all add: walk_inv_def)
  then have "0 \<le> sum_list (map snd (fst st))"
    by (intro sum_list_nonneg) auto
  with assms show ?thesis by (simp add: walk_inv_def)
qed

lemma walk_ieee_exact:
  assumes "walk_inv bal x st" and "\<forall>k. \<bar>bal k\<bar> \<le> M" and "M + x \<le> 2 ^ 53"
  shows "walk_ieee bal ts st = walk bal ts st"
  using assms(1)
proof (induction ts arbitrary: st)
  case Nil
  show ?case by simp
next
  case (Cons t ts)
  show ?case
  proof (cases "snd st \<le> 0")
    case True
    then show ?thesis by simp
  next
    case False
    then have pos: "0 < snd st" by simp
    from Cons.prems have le: "snd st \<le> x" by (rule walk_inv_remaining_le)
    from Cons.prems have c: "0 \<le> spent (fst st) (payer t)"
      "spent (fst st) (payer t) \<le> max 0 (bal (payer t))"
      by (simp_all add: walk_inv_def)
    from assms(2) have b: "\<bar>bal (payer t)\<bar> \<le> M" by simp
    have "step_ieee bal t (fst st, snd st) = step bal t (fst st, snd st)"
      using b c pos le assms(3) by (rule step_ieee_exact)
    then have same: "step_ieee bal t st = step bal t st" by simp
    have "walk_inv bal x (step bal t st)"
      using Cons.prems pos by (rule walk_inv_step)
    then have "walk_ieee bal ts (step bal t st) = walk bal ts (step bal t st)"
      by (rule Cons.IH)
    with False same show ?thesis by simp
  qed
qed

lemma walk_ieee_exact_init:
  assumes "magnitude txs + x \<le> 2 ^ 53" "0 \<le> x"
  shows "walk_ieee (get_or_zero (payerBalances_ieee txs)) ts ([], x)
       = walk (getPayerBalance txs) ts ([], x)"
proof -
  from assms have small: "magnitude txs \<le> 2 ^ 53" by simp
  have "walk_ieee (getPayerBalance txs) ts ([], x) = walk (getPayerBalance txs) ts ([], x)"
  proof (rule walk_ieee_exact)
    show "walk_inv (getPayerBalance txs) x ([], x)" using assms(2) by (rule walk_inv_init)
    show "\<forall>k. \<bar>getPayerBalance txs k\<bar> \<le> magnitude txs" by (simp add: abs_getPayerBalance)
    show "magnitude txs + x \<le> 2 ^ 53" by (rule assms(1))
  qed
  then show ?thesis by (simp add: payerBalances_ieee_exact [OF small])
qed

lemma spendPoints_ieee_exact:
  assumes "magnitude txs + \<bar>x\<bar> \<le> 2 ^ 53"
  shows "spendPoints_ieee txs x now = spendPoints txs x now"
proof -
  from assms have small: "magnitude txs \<le> 2 ^ 53" by simp
  show ?thesis
  proof (cases "0 \<le> x")
    case True
    with assms have "magnitude txs + x \<le> 2 ^ 53" by simp
    from walk_ieee_exact_init [OF this True] show ?thesis
      by (simp add: spendPoints_ieee_def spendPoints_def Let_def
          getTotalPoints_ieee_exact [OF small] payerBalances_lookup)
  next
    case False
    then show ?thesis by (simp add: spendPoints_ieee_def spendPoints_def)
  qed
qed

section \<open>Amounts deducted by a successful call\<close>

lemma run_refund:
  "spendPoints refund_ledger 50 now =
     (Inr [\<lparr>spent_payer = ''B'', spent_points = - 10\<rparr>],
      refund_ledger @ [\<lparr>payer = ''B'', points = - 10, timestamp = now\<rparr>])"
  by (simp add: spendPoints_def refund_ledger_def getTotalPoints_def payerBalances_def
      get_or_zero_def step_def spent_def to_result_def record_spending_def Let_def)

lemma run_debt:
  "spendPoints debt_ledger 10 now =
     (Inr [\<lparr>spent_payer = ''A'', spent_points = - 10\<rparr>],
      debt_ledger @ [\<lparr>payer = ''A'', points = - 10, timestamp = now\<rparr>])"
  by (simp add: spendPoints_def debt_ledger_def getTotalPoints_def payerBalances_def
      get_or_zero_def step_def spent_def to_result_def record_spending_def Let_def)

lemma run_scenario:
  "spendPoints scenario 5000 now =
     (Inr scenario_result,
      scenario @ map (\<lambda>s. \<lparr>payer = spent_payer s, points = spent_points s, timestamp = now\<rparr>)
                   scenario_result)"
  by (simp add: spendPoints_def scenario_def scenario_result_def getTotalPoints_def
      payerBalances_def get_or_zero_def step_def spent_def to_result_def record_spending_def Let_def)

lemma rnd_values:
  "rnd 0 = 0" "rnd 1 = 1" "rnd 6 = 6" "rnd (- 4) = - 4"
  "rnd 18014398509481983 = 18014398509481984"
  "rnd 18014398509481984 = 18014398509481984"
  "rnd 18014398509481985 = 18014398509481984"
  "rnd 18014398509481990 = 18014398509481992"
  "rnd 18014398509481992 = 18014398509481992"
  "rnd 18014398509481996 = 18014398509481996"
  "rnd 18014398509481998 = 18014398509482000"
  by code_simp+

lemma rounding_ledgers_doubles:
  "list_all (\<lambda>t. rnd (points t) = points t) rounding_ledger"
  "list_all (\<lambda>t. rnd (points t) = points t) rounding_refund_ledger"
  by (simp_all add: rounding_ledger_def rounding_refund_ledger_def rnd_values)

lemma run_rounding:
  "spendPoints_ieee rounding_ledger 18014398509481984 9 =
     (Inr [\<lparr>spent_payer = ''A'', spent_points = - 1\<rparr>,
           \<lparr>spent_payer = ''B'', spent_points = - 18014398509481984\<rparr>],
      rounding_ledger @ [\<lparr>payer = ''A'', points = - 1, timestamp = 9\<rparr>,
                         \<lparr>payer = ''B'', points = - 18014398509481984, timestamp = 9\<rparr>])"
  by (simp add: spendPoints_ieee_def rounding_ledger_def getTotalPoints_ieee_def
      payerBalances_ieee_def get_or_zero_def step_ieee_def spent_def to_result_def
      record_spending_def Let_def rnd_values)

lemma run_rounding_refund:
  "spendPoints_ieee rounding_refund_ledger 18014398509481996 9 =
     (Inr [\<lparr>spent_payer = ''A'', spent_points = - 18014398509482000\<rparr>],
      rounding_refund_ledger @ [\<lparr>payer = ''A'', points = - 18014398509482000, timestamp = 9\<rparr>])"
  by (simp add: spendPoints_ieee_def rounding_refund_ledger_def getTotalPoints_ieee_def
      payerBalances_ieee_def get_or_zero_def step_ieee_def spent_def to_result_def
      record_spending_def Let_def rnd_values)

lemma success_walk_inv:
  assumes "spendPoints txs x now = (Inr res, txs')"
  shows "walk_inv (getPayerBalance txs) x (walk (getPayerBalance txs) ts ([], x))"
  using assms by (simp add: spendPoints_success walk_inv_final)

text \<open>
  Claim C1 says that a call passing both guards deducts exactly the requested
  amount. The code does not: on \<^const>\<open>refund_ledger\<close>, whose total is 50,
  \<^verbatim>\<open>spendPoints(50)\<close> passes both guards, draws 40 from A, gives the 40 back at A's
  refund, draws 10 from B, reaches the end of the events with 40 still to spend, and
  returns the single entry B -10: it deducts 10 of the 50 requested.
\<close>

theorem spendPoints_under_allocates:
  "getTotalPoints refund_ledger = 50 \<and>
   spendPoints refund_ledger 50 now =
     (Inr [\<lparr>spent_payer = ''B'', spent_points = - 10\<rparr>],
      refund_ledger @ [\<lparr>payer = ''B'', points = - 10, timestamp = now\<rparr>]) \<and>
   total_deducted [\<lparr>spent_payer = ''B'', spent_points = - 10\<rparr>] = 10"
  by (simp add: run_refund) (simp add: refund_ledger_def getTotalPoints_def total_deducted_def)

lemma exact_never_over_deducts:
  assumes "spendPoints txs x now = (Inr res, txs')"
  shows "0 \<le> snd (walk (getPayerBalance txs) (take n (sort_key timestamp txs)) ([], x))
       \<and> total_deducted res \<le> x
       \<and> sum_list (map (\<lambda>t. \<bar>points t\<bar>) (drop (length txs) txs')) = total_deducted res"
proof -
  let ?bal = "getPayerBalance txs"
  let ?final = "walk ?bal (sort_key timestamp txs) ([], x)"
  from assms have res: "res = to_result (fst ?final)"
    and txs': "txs' = record_spending txs res now"
    by (simp_all add: spendPoints_success)
  have "walk_inv ?bal x (walk ?bal (take n (sort_key timestamp txs)) ([], x))"
    using assms by (rule success_walk_inv)
  then have during: "0 \<le> snd (walk ?bal (take n (sort_key timestamp txs)) ([], x))"
    by (simp add: walk_inv_def)
  have inv: "walk_inv ?bal x ?final"
    using assms by (rule success_walk_inv)
  then have "total_deducted res = x - snd ?final"
    unfolding res by (rule walk_inv_total)
  moreover from inv have "0 \<le> snd ?final"
    by (simp add: walk_inv_def)
  ultimately have total: "total_deducted res \<le> x" by simp
  have appended: "sum_list (map (\<lambda>t. \<bar>points t\<bar>) (drop (length txs) txs')) = total_deducted res"
    by (simp add: txs' record_spending_append total_deducted_def comp_def)
  from during total appended show ?thesis by simp
qed

text \<open>
  Claim C9, amended. When the absolute amounts of the ledger and the amount to
  spend add up to at most \<open>2 ^ 53\<close>, a successful \<^verbatim>\<open>spendPoints(x)\<close> of the service in
  double precision never deducts too much: \<^verbatim>\<open>remainingToSpend\<close> is not negative after
  any number \<open>n\<close> of events of the chronological walk, the absolute values of the
  returned deductions sum to at most \<open>x\<close>, and the absolute values of the events
  appended to the ledger sum to the same. The claim as written, for every ledger,
  fails above \<open>2 ^ 53\<close>: on \<^const>\<open>rounding_ledger\<close> with \<open>x = 2 ^ 54\<close>, the
  service draws 1 from A, \<^verbatim>\<open>remainingToSpend -= 1\<close> rounds back to \<open>2 ^ 54\<close>, and
  \<open>2 ^ 54\<close> more is drawn from B: \<open>x + 1\<close> is deducted.
\<close>

theorem spendPoints_never_over_deducts:
  assumes "magnitude txs + \<bar>x\<bar> \<le> 2 ^ 53"
    and "spendPoints_ieee txs x now = (Inr res, txs')"
  shows "0 \<le> snd (walk_ieee (get_or_zero (payerBalances_ieee txs))
                     (take n (sort_key timestamp txs)) ([], x))
       \<and> total_deducted res \<le> x
       \<and> sum_list (map (\<lambda>t. \<bar>points t\<bar>) (drop (length txs) txs')) = total_deducted res"
proof -
  from assms have run: "spendPoints txs x now = (Inr res, txs')"
    by (simp add: spendPoints_ieee_exact)
  then have x0: "0 \<le> x" by (simp add: spendPoints_success)
  with assms(1) have "magnitude txs + x \<le> 2 ^ 53" by simp
  from walk_ieee_exact_init [OF this x0]
  have "walk_ieee (get_or_zero (payerBalances_ieee txs)) (take n (sort_key timestamp txs)) ([], x)
      = walk (getPayerBalance txs) (take n (sort_key timestamp txs)) ([], x)" .
  with exact_never_over_deducts [OF run, of n] show ?thesis by simp
qed

theorem spendPoints_never_over_deducts_witness:
  "magnitude refund_ledger + \<bar>50\<bar> \<le> 2 ^ 53
   \<and> spendPoints_ieee refund_ledger 50 9 =
     (Inr [\<lparr>spent_payer = ''B'', spent_points = - 10\<rparr>],
      refund_ledger @ [\<lparr>payer = ''B'', points = - 10, timestamp = 9\<rparr>])
   \<and> 0 \<le> snd (walk_ieee (get_or_zero (payerBalances_ieee refund_ledger))
                   (take 2 (sort_key timestamp refund_ledger)) ([], 50))
   \<and> total_deducted [\<lparr>spent_payer = ''B'', spent_points = - 10\<rparr>] \<le> 50"
proof -
  have small: "magnitude refund_ledger + \<bar>50\<bar> \<le> 2 ^ 53"
    by (simp add: magnitude_def refund_ledger_def)
  have run: "spendPoints_ieee refund_ledger 50 9 =
     (Inr [\<lparr>spent_payer = ''B'', spent_points = - 10\<rparr>],
      refund_ledger @ [\<lparr>payer = ''B'', points = - 10, timestamp = 9\<rparr>])"
    by (simp add: spendPoints_ieee_exact [OF small] run_refund)
  from spendPoints_never_over_deducts [OF small run, of 2] small run show ?thesis
    by blast
qed

theorem spendPoints_never_over_deducts_counterexample:
  "list_all (\<lambda>t. rnd (points t) = points t) rounding_ledger
   \<and> rnd 18014398509481984 = 18014398509481984
   \<and> spendPoints_ieee rounding_ledger 18014398509481984 9 =
     (Inr [\<lparr>spent_payer = ''A'', spent_points = - 1\<rparr>,
           \<lparr>spent_payer = ''B'', spent_points = - 18014398509481984\<rparr>],
      rounding_ledger @ [\<lparr>payer = ''A'', points = - 1, timestamp = 9\<rparr>,
                         \<lparr>payer = ''B'', points = - 18014398509481984, timestamp = 9\<rparr>])
   \<and> total_deducted [\<lparr>spent_payer = ''A'', spent_points = - 1\<rparr>,
                      \<lparr>spent_payer = ''B'', spent_points = - 18014398509481984\<rparr>]
       = 18014398509481985
   \<and> \<not> total_deducted [\<lparr>spent_payer = ''A'', spent_points = - 1\<rparr>,
                        \<lparr>spent_payer = ''B'', spent_points = - 18014398509481984\<rparr>]
         \<le> 18014398509481984"
  by (simp add: run_rounding rounding_ledgers_doubles rnd_values) (simp add: total_deducted_def)

lemma exact_deduction_within_balance:
  assumes "spendPoints txs x now = (Inr res, txs')"
  shows "deducted res p \<le> max 0 (getPayerBalance txs p)
       \<and> (p \<in> spent_payer ` set res \<longrightarrow> 0 < deducted res p \<and> deducted res p \<le> getPayerBalance txs p)
       \<and> (0 < rem \<and> 0 \<le> spent sp (payer t)
            \<and> spent sp (payer t) \<le> max 0 (getPayerBalance txs (payer t))
          \<longrightarrow> spent (fst (step (getPayerBalance txs) t (sp, rem))) (payer t)
                \<le> max 0 (getPayerBalance txs (payer t)))
       \<and> (0 < points t
            \<and> getPayerBalance txs (payer t) - spent sp (payer t) - min (points t) rem < 0
            \<and> 0 < getPayerBalance txs (payer t) - spent sp (payer t)
          \<longrightarrow> spent (fst (step (getPayerBalance txs) t (sp, rem))) (payer t)
                = getPayerBalance txs (payer t))"
proof -
  let ?bal = "getPayerBalance txs"
  let ?final = "walk ?bal (sort_key timestamp txs) ([], x)"
  from assms have res: "res = to_result (fst ?final)"
    by (simp add: spendPoints_success)
  have inv: "walk_inv ?bal x ?final"
    using assms by (rule success_walk_inv)
  then have ded: "deducted res p = spent (fst ?final) p"
    unfolding res by (rule walk_inv_deducted)
  from inv have bound: "deducted res p \<le> max 0 (?bal p)"
    by (simp add: ded walk_inv_def)
  have entry: "0 < deducted res p \<and> deducted res p \<le> ?bal p" if "p \<in> spent_payer ` set res"
  proof -
    from that obtain s where s: "s \<in> set res" "spent_payer s = p" by auto
    then obtain v where "(p, v) \<in> set (fst ?final)" "0 < v"
      by (auto simp: res to_result_map_filter)
    moreover from inv have "distinct (map fst (fst ?final))" by (simp add: walk_inv_def)
    ultimately have "0 < spent (fst ?final) p" by (simp add: spent_entry)
    with bound ded show ?thesis by simp
  qed
  have commit: "spent (fst (step ?bal t (sp, rem))) (payer t) \<le> max 0 (?bal (payer t))"
    if "0 < rem" "0 \<le> spent sp (payer t)" "spent sp (payer t) \<le> max 0 (?bal (payer t))"
  proof -
    from that(1) have "0 < snd (sp, rem)" by simp
    then show ?thesis
    proof (cases rule: step_cases [where t = t and bal = ?bal])
      case (draw d)
      then show ?thesis by (simp add: spent_update)
    next
      case (give_back g)
      with that show ?thesis by (simp add: spent_update)
    next
      case skip
      with that show ?thesis by simp
    qed
  qed
  have clamp: "spent (fst (step ?bal t (sp, rem))) (payer t) = ?bal (payer t)"
    if "0 < points t" "?bal (payer t) - spent sp (payer t) - min (points t) rem < 0"
       "0 < ?bal (payer t) - spent sp (payer t)"
    using that by (auto simp: step_def Let_def spent_update)
  from bound entry commit clamp show ?thesis by blast
qed

text \<open>
  Claim C3, amended. When the absolute amounts of the ledger and the amount to
  spend add up to at most \<open>2 ^ 53\<close>, in a successful call of the service in double
  precision what is deducted from a payer (0 when the payer has no entry) is at most
  the payer's balance before the call when that balance is not negative, and is 0
  when it is negative; the balance the service computes is the sum of the payer's
  events; a payer with an entry has a positive deduction of at most its balance. One
  iteration keeps a payer's spending within its balance, and a clamped draw (the
  full draw would exceed the balance, and some balance is left) brings the payer's
  spending to exactly its balance. The claim as written fails in two ways: at a
  payer whose balance is negative the deduction 0 exceeds the balance; and above
  \<open>2 ^ 53\<close> the rounded sums let the service deduct more than the balance it
  computed (\<^const>\<open>rounding_refund_ledger\<close>).
\<close>

theorem deduction_within_balance:
  assumes "magnitude txs + \<bar>x\<bar> \<le> 2 ^ 53"
    and "spendPoints_ieee txs x now = (Inr res, txs')"
  shows "deducted res p \<le> max 0 (getPayerBalance txs p)
       \<and> get_or_zero (payerBalances_ieee txs) p = getPayerBalance txs p
       \<and> (p \<in> spent_payer ` set res \<longrightarrow> 0 < deducted res p \<and> deducted res p \<le> getPayerBalance txs p)
       \<and> (0 < rem \<and> rem \<le> x \<and> 0 \<le> spent sp (payer t)
            \<and> spent sp (payer t) \<le> max 0 (getPayerBalance txs (payer t))
          \<longrightarrow> spent (fst (step_ieee (get_or_zero (payerBalances_ieee txs)) t (sp, rem))) (payer t)
                \<le> max 0 (getPayerBalance txs (payer t)))
       \<and> (0 < points t \<and> 0 < rem \<and> rem \<le> x \<and> 0 \<le> spent sp (payer t)
            \<and> getPayerBalance txs (payer t) - spent sp (payer t) - min (points t) rem < 0
            \<and> 0 < getPayerBalance txs (payer t) - spent sp (payer t)
          \<longrightarrow> spent (fst (step_ieee (get_or_zero (payerBalances_ieee txs)) t (sp, rem))) (payer t)
                = getPayerBalance txs (payer t))"
proof -
  let ?bal = "getPayerBalance txs"
  from assms have run: "spendPoints txs x now = (Inr res, txs')"
    by (simp add: spendPoints_ieee_exact)
  then have x0: "0 \<le> x" by (simp add: spendPoints_success)
  from assms(1) have small: "magnitude txs \<le> 2 ^ 53" by simp
  have bal: "get_or_zero (payerBalances_ieee txs) = ?bal"
    using small by (rule payerBalances_ieee_exact)
  have same: "step_ieee ?bal t (sp, rem) = step ?bal t (sp, rem)"
    if "0 < rem" "rem \<le> x" "0 \<le> spent sp (payer t)" "spent sp (payer t) \<le> max 0 (?bal (payer t))"
  proof (rule step_ieee_exact)
    show "\<bar>?bal (payer t)\<bar> \<le> magnitude txs" by (rule abs_getPayerBalance)
    show "magnitude txs + x \<le> 2 ^ 53" using assms(1) x0 by simp
  qed (use that in simp_all)
  note exact = exact_deduction_within_balance [OF run, of p rem sp t]
  have commit: "spent (fst (step_ieee ?bal t (sp, rem))) (payer t) \<le> max 0 (?bal (payer t))"
    if "0 < rem" "rem \<le> x" "0 \<le> spent sp (payer t)" "spent sp (payer t) \<le> max 0 (?bal (payer t))"
    using exact same [OF that] that by simp
  have clamp: "spent (fst (step_ieee ?bal t (sp, rem))) (payer t) = ?bal (payer t)"
    if "0 < points t" "0 < rem" "rem \<le> x" "0 \<le> spent sp (payer t)"
       "?bal (payer t) - spent sp (payer t) - min (points t) rem < 0"
       "0 < ?bal (payer t) - spent sp (payer t)"
  proof -
    from that(6) have "spent sp (payer t) \<le> max 0 (?bal (payer t))" by simp
    from same [OF that(2,3,4) this] exact that show ?thesis by simp
  qed
  from exact commit clamp show ?thesis
    unfolding bal by blast
qed

theorem deduction_within_balance_witness:
  "magnitude refund_ledger + \<bar>50\<bar> \<le> 2 ^ 53
   \<and> spendPoints_ieee refund_ledger 50 9 =
     (Inr [\<lparr>spent_payer = ''B'', spent_points = - 10\<rparr>],
      refund_ledger @ [\<lparr>payer = ''B'', points = - 10, timestamp = 9\<rparr>])
   \<and> ''B'' \<in> spent_payer ` set [\<lparr>spent_payer = ''B'', spent_points = - 10\<rparr>]
   \<and> 0 < deducted [\<lparr>spent_payer = ''B'', spent_points = - 10\<rparr>] ''B''
   \<and> deducted [\<lparr>spent_payer = ''B'', spent_points = - 10\<rparr>] ''B'' \<le> getPayerBalance refund_ledger ''B''
   \<and> 0 < points \<lparr>payer = ''A'', points = 100, timestamp = 1\<rparr>
   \<and> (0::int) < 50 \<and> (50::int) \<le> 50 \<and> 0 \<le> spent [] ''A''
   \<and> spent [] ''A'' \<le> max 0 (getPayerBalance refund_ledger ''A'')
   \<and> getPayerBalance refund_ledger ''A'' - spent [] ''A'' - min 100 50 < 0
   \<and> 0 < getPayerBalance refund_ledger ''A'' - spent [] ''A''
   \<and> spent (fst (step_ieee (get_or_zero (payerBalances_ieee refund_ledger))
                   \<lparr>payer = ''A'', points = 100, timestamp = 1\<rparr> ([], 50))) ''A''
       = getPayerBalance refund_ledger ''A''"
proof -
  have small: "magnitude refund_ledger + \<bar>50\<bar> \<le> 2 ^ 53"
    by (simp add: magnitude_def refund_ledger_def)
  have run: "spendPoints_ieee refund_ledger 50 9 =
     (Inr [\<lparr>spent_payer = ''B'', spent_points = - 10\<rparr>],
      refund_ledger @ [\<lparr>payer = ''B'', points = - 10, timestamp = 9\<rparr>])"
    by (simp add: spendPoints_ieee_exact [OF small] run_refund)
  have balA: "getPayerBalance refund_ledger ''A'' = 40"
    and balB: "getPayerBalance refund_ledger ''B'' = 10"
    by (simp_all add: getPayerBalance_def refund_ledger_def)
  from deduction_within_balance [OF small run, of "''B''" 50 "[]"
      "\<lparr>payer = ''A'', points = 100, timestamp = 1\<rparr>"]
    small run show ?thesis
    by (simp add: balA balB spent_Nil)
qed

theorem deduction_within_balance_counterexample:
  "spendPoints_ieee debt_ledger 10 9 =
     (Inr [\<lparr>spent_payer = ''A'', spent_points = - 10\<rparr>],
      debt_ledger @ [\<lparr>payer = ''A'', points = - 10, timestamp = 9\<rparr>])
   \<and> deducted [\<lparr>spent_payer = ''A'', spent_points = - 10\<rparr>] ''B'' = 0
   \<and> getPayerBalance debt_ledger ''B'' = - 50
   \<and> \<not> deducted [\<lparr>spent_payer = ''A'', spent_points = - 10\<rparr>] ''B'' \<le> getPayerBalance debt_ledger ''B''
   \<and> list_all (\<lambda>t. rnd (points t) = points t) rounding_refund_ledger
   \<and> rnd 18014398509481996 = 18014398509481996
   \<and> spendPoints_ieee rounding_refund_ledger 18014398509481996 9 =
     (Inr [\<lparr>spent_payer = ''A'', spent_points = - 18014398509482000\<rparr>],
      rounding_refund_ledger @ [\<lparr>payer = ''A'', points = - 18014398509482000, timestamp = 9\<rparr>])
   \<and> get_or_zero (payerBalances_ieee rounding_refund_ledger) ''A'' = 18014398509481996
   \<and> getPayerBalance rounding_refund_ledger ''A'' = 18014398509481994
   \<and> \<not> deducted [\<lparr>spent_payer = ''A'', spent_points = - 18014398509482000\<rparr>] ''A''
         \<le> 18014398509481996"
proof -
  have small: "magnitude debt_ledger + \<bar>10\<bar> \<le> 2 ^ 53"
    by (simp add: magnitude_def debt_ledger_def)
  have debt: "spendPoints_ieee debt_ledger 10 9 =
     (Inr [\<lparr>spent_payer = ''A'', spent_points = - 10\<rparr>],
      debt_ledger @ [\<lparr>payer = ''A'', points = - 10, timestamp = 9\<rparr>])"
    by (simp add: spendPoints_ieee_exact [OF small] run_debt)
  have computed:
    "get_or_zero (payerBalances_ieee rounding_refund_ledger) ''A'' = 18014398509481996"
    by (simp add: payerBalances_ieee_def rounding_refund_ledger_def get_or_zero_def rnd_values)
  from debt run_rounding_refund computed rounding_ledgers_doubles(2) show ?thesis
    by (simp add: rnd_values)
       (simp add: deducted_def getPayerBalance_def debt_ledger_def rounding_refund_ledger_def)
qed

section \<open>Guards, the appended events and the two variants\<close>

text \<open>
  Claim C10: the service that precomputes the map of balances and the unnamed
  variant that calls \<^verbatim>\<open>getPayerBalance\<close> in every iteration return the same result or
  the same error, and leave the same ledger, on every ledger, amount and time.
\<close>

theorem spendPoints_variants_equal:
  "spendPoints_unnamed txs pointsToSpend now = spendPoints txs pointsToSpend now"
  by (simp add: spendPoints_def spendPoints_unnamed_def Let_def payerBalances_lookup)




text \<open>
  Claim C5 says that every amount less than or equal to 0 is refused with the
  error "Points to spend must be positive". The guard of the code is
  \<^verbatim>\<open>pointsToSpend < 0\<close>: the amount 0 passes it, and on the empty ledger
  \<^verbatim>\<open>spendPoints(0)\<close> succeeds with an empty result.
\<close>

theorem spendPoints_zero_accepted:
  "spendPoints [] 0 now = (Inr [], [])"
  by (simp add: spendPoints_def getTotalPoints_def to_result_def record_spending_def)

lemma spendPoints_negative:
  "x < 0 \<Longrightarrow> spendPoints txs x now = (Inl MustBePositive, txs)"
  by (simp add: spendPoints_def)

text \<open>
  Claim C8: a successful call changes the ledger by appending only. The ledger
  after the call is the ledger before it followed by one event per returned entry,
  in the order of the entries; each such event carries the entry's payer and its
  negative amount, and the time \<open>now\<close> of the call.
\<close>

theorem spendPoints_appends_only:
  assumes "spendPoints txs x now = (Inr res, txs')"
  shows "txs' = txs @ map (\<lambda>s. \<lparr>payer = spent_payer s, points = spent_points s, timestamp = now\<rparr>) res
       \<and> take (length txs) txs' = txs
       \<and> length txs' = length txs + length res
       \<and> (\<forall>i < length res. payer (txs' ! (length txs + i)) = spent_payer (res ! i)
                           \<and> points (txs' ! (length txs + i)) = spent_points (res ! i)
                           \<and> points (txs' ! (length txs + i)) < 0
                           \<and> timestamp (txs' ! (length txs + i)) = now)"
proof -
  from assms have r: "res = to_result (fst (walk (getPayerBalance txs) (sort_key timestamp txs) ([], x)))"
    and t: "txs' = record_spending txs res now"
    by (simp_all add: spendPoints_success)
  have neg: "spent_points (res ! i) < 0" if "i < length res" for i
    using that r to_result_negative nth_mem by blast
  show ?thesis
    using neg by (simp add: t record_spending_append nth_append)
qed

theorem spendPoints_appends_only_witness:
  "spendPoints scenario 5000 9 =
     (Inr scenario_result,
      scenario @ map (\<lambda>s. \<lparr>payer = spent_payer s, points = spent_points s, timestamp = 9\<rparr>)
                   scenario_result)
   \<and> take (length scenario)
        (scenario @ map (\<lambda>s. \<lparr>payer = spent_payer s, points = spent_points s, timestamp = 9\<rparr>)
                   scenario_result) = scenario
   \<and> length (scenario @ map (\<lambda>s. \<lparr>payer = spent_payer s, points = spent_points s, timestamp = 9\<rparr>)
                   scenario_result) = length scenario + length scenario_result
   \<and> (2::nat) < length scenario_result
   \<and> (scenario @ map (\<lambda>s. \<lparr>payer = spent_payer s, points = spent_points s, timestamp = 9\<rparr>)
                   scenario_result) ! (length scenario + 2)
       = \<lparr>payer = ''AMAZON'', points = - 4700, timestamp = 9\<rparr>"
  using run_scenario [of 9] spendPoints_appends_only [OF run_scenario [of 9]]
  by (simp add: scenario_result_def nth_append)

section \<open>Order of the result, greedy allocation and the scenario\<close>

lemma run_credits:
  "spendPoints credits_ledger 120 now =
     (Inr [\<lparr>spent_payer = ''B'', spent_points = - 50\<rparr>, \<lparr>spent_payer = ''A'', spent_points = - 70\<rparr>],
      credits_ledger @ [\<lparr>payer = ''B'', points = - 50, timestamp = now\<rparr>,
                        \<lparr>payer = ''A'', points = - 70, timestamp = now\<rparr>])"
  by (simp add: spendPoints_def credits_ledger_def getTotalPoints_def payerBalances_def
      get_or_zero_def step_def spent_def to_result_def record_spending_def Let_def)



lemma exact_credits_only_greedy:
  assumes "\<forall>t \<in> set txs. 0 < points t" and "0 < x" and "x \<le> getTotalPoints txs"
  shows "\<exists>res. spendPoints txs x now
                 = (Inr res, txs @ map (\<lambda>s. \<lparr>payer = spent_payer s, points = spent_points s,
                                              timestamp = now\<rparr>) res)
             \<and> (\<forall>p. deducted res p = drawn_from (greedy x (sort_key timestamp txs)) p
                     \<and> deducted res p \<le> getPayerBalance txs p)
             \<and> total_deducted res = x
             \<and> sum_list (map snd (greedy x (sort_key timestamp txs))) = x
             \<and> snd (walk (getPayerBalance txs) (take n (sort_key timestamp txs)) ([], x))
                 = x - sum_list (map snd (take n (greedy x (sort_key timestamp txs))))"
proof -
  let ?bal = "getPayerBalance txs"
  let ?sorted = "sort_key timestamp txs"
  let ?final = "walk ?bal ?sorted ([], x)"
  let ?res = "to_result (fst ?final)"
  from assms(2) have x0: "0 \<le> x" by simp
  have ok: "spendPoints txs x now
      = (Inr ?res, txs @ map (\<lambda>s. \<lparr>payer = spent_payer s, points = spent_points s,
                                   timestamp = now\<rparr>) ?res)"
    using x0 assms(3) by (simp add: spendPoints_success record_spending_append)
  have inv: "walk_inv ?bal x ?final"
    using x0 by (rule walk_inv_final)
  have credits: "\<forall>t \<in> set ?sorted. 0 < points t"
    using assms(1) by simp
  have room: "\<forall>p. spent [] p + sum_list (map points (filter (\<lambda>t. payer t = p) ?sorted)) \<le> ?bal p"
    by (simp add: spent_Nil sum_filter_sort_key getPayerBalance_sum)
  have draws: "deducted ?res p = drawn_from (greedy x ?sorted) p" for p
  proof -
    have "deducted ?res p = spent (fst ?final) p"
      using inv by (rule walk_inv_deducted)
    also have "\<dots> = spent [] p + drawn_from (greedy x ?sorted) p"
      using credits x0 room by (rule greedy_walk)
    finally show ?thesis by (simp add: spent_Nil)
  qed
  have bound: "deducted ?res p \<le> ?bal p" for p
  proof -
    have "0 \<le> ?bal p"
      using credits_sum_nonneg [OF assms(1)] by (simp add: getPayerBalance_sum)
    moreover have "spent (fst ?final) p \<le> max 0 (?bal p)"
      using inv by (simp add: walk_inv_def)
    ultimately show ?thesis
      using walk_inv_deducted [OF inv, of p] by simp
  qed
  have total: "sum_list (map points ?sorted) = getTotalPoints txs"
    using sum_filter_sort_key [of points "\<lambda>t. True" timestamp txs]
    by (simp add: getTotalPoints_sum)
  have all: "sum_list (map snd (greedy x ?sorted)) = x"
    using greedy_sum [OF credits x0] total assms(3) by simp
  have "snd ?final = x - sum_list (map snd (greedy x ?sorted))"
    using credits x0 room by (rule greedy_walk_remaining)
  with all walk_inv_total [OF inv] have exact: "total_deducted ?res = x" by simp
  have "\<forall>t \<in> set (take n ?sorted). 0 < points t"
    using credits by (auto dest: in_set_takeD)
  moreover have "\<forall>p. spent [] p + sum_list (map points (filter (\<lambda>t. payer t = p) (take n ?sorted)))
                    \<le> ?bal p"
  proof
    fix p
    have "sum_list (map points (filter (\<lambda>t. payer t = p) (take n ?sorted)))
            \<le> sum_list (map points (filter (\<lambda>t. payer t = p) ?sorted))"
      using credits by (rule credits_prefix_sum)
    then show "spent [] p + sum_list (map points (filter (\<lambda>t. payer t = p) (take n ?sorted)))
                      \<le> ?bal p"
      by (simp add: spent_Nil sum_filter_sort_key getPayerBalance_sum)
  qed
  ultimately have "snd (walk ?bal (take n ?sorted) ([], x))
      = x - sum_list (map snd (greedy x (take n ?sorted)))"
    using x0 by (intro greedy_walk_remaining)
  then have during: "snd (walk ?bal (take n ?sorted) ([], x))
      = x - sum_list (map snd (take n (greedy x ?sorted)))"
    by (simp only: greedy_take)
  from ok draws bound exact all during show ?thesis by blast
qed

text \<open>
  Claim C6, amended. On a ledger of credits only, for \<open>0 < x\<close> at most the total,
  and when the amounts of the ledger and \<open>x\<close> add up to at most \<open>2 ^ 53\<close>,
  \<^verbatim>\<open>spendPoints(x)\<close> of the service in double precision succeeds and allocates as
  \<^const>\<open>greedy\<close> does on the events in ascending order of timestamp. What remains
  after the first \<open>n\<close> events of the walk is \<open>x\<close> less the first \<open>n\<close> greedy draws,
  each the minimum of the event's amount and of what remained; the deduction of
  every payer is the sum of the greedy draws on its events and is at most its
  balance; the draws, and the deductions, sum to exactly \<open>x\<close>. The claim as written,
  for every ledger of credits, fails above \<open>2 ^ 53\<close>: on \<^const>\<open>rounding_ledger\<close>
  with \<open>x = 2 ^ 54\<close> the deductions sum to \<open>x + 1\<close>.
\<close>

theorem credits_only_greedy:
  assumes "\<forall>t \<in> set txs. 0 < points t" and "0 < x" and "x \<le> getTotalPoints_ieee txs"
    and "magnitude txs + x \<le> 2 ^ 53"
  shows "\<exists>res. spendPoints_ieee txs x now
                 = (Inr res, txs @ map (\<lambda>s. \<lparr>payer = spent_payer s, points = spent_points s,
                                              timestamp = now\<rparr>) res)
             \<and> (\<forall>p. deducted res p = drawn_from (greedy x (sort_key timestamp txs)) p
                     \<and> deducted res p \<le> getPayerBalance txs p)
             \<and> total_deducted res = x
             \<and> sum_list (map snd (greedy x (sort_key timestamp txs))) = x
             \<and> snd (walk_ieee (get_or_zero (payerBalances_ieee txs))
                       (take n (sort_key timestamp txs)) ([], x))
                 = x - sum_list (map snd (take n (greedy x (sort_key timestamp txs))))"
proof -
  from assms(2) have x0: "0 \<le> x" by simp
  with assms(4) have small: "magnitude txs \<le> 2 ^ 53" and bound: "magnitude txs + \<bar>x\<bar> \<le> 2 ^ 53"
    using magnitude_nonneg [of txs] by simp_all
  from assms(3) have total: "x \<le> getTotalPoints txs"
    by (simp add: getTotalPoints_ieee_exact [OF small])
  have walk: "walk_ieee (get_or_zero (payerBalances_ieee txs)) (take n (sort_key timestamp txs)) ([], x)
      = walk (getPayerBalance txs) (take n (sort_key timestamp txs)) ([], x)"
    using assms(4) x0 by (rule walk_ieee_exact_init)
  from exact_credits_only_greedy [OF assms(1,2) total, of now n] show ?thesis
    by (simp add: spendPoints_ieee_exact [OF bound] walk)
qed

theorem credits_only_greedy_witness:
  "list_all (\<lambda>t. 0 < points t) credits_ledger \<and> (0::int) < 120
   \<and> 120 \<le> getTotalPoints_ieee credits_ledger
   \<and> magnitude credits_ledger + 120 \<le> 2 ^ 53
   \<and> spendPoints_ieee credits_ledger 120 9 =
     (Inr [\<lparr>spent_payer = ''B'', spent_points = - 50\<rparr>, \<lparr>spent_payer = ''A'', spent_points = - 70\<rparr>],
      credits_ledger @ [\<lparr>payer = ''B'', points = - 50, timestamp = 9\<rparr>,
                        \<lparr>payer = ''A'', points = - 70, timestamp = 9\<rparr>])
   \<and> greedy 120 (sort_key timestamp credits_ledger) = [(''B'', 50), (''A'', 30), (''A'', 40)]
   \<and> deducted [\<lparr>spent_payer = ''B'', spent_points = - 50\<rparr>, \<lparr>spent_payer = ''A'', spent_points = - 70\<rparr>] ''A''
       = drawn_from [(''B'', 50), (''A'', 30), (''A'', 40)] ''A''
   \<and> total_deducted [\<lparr>spent_payer = ''B'', spent_points = - 50\<rparr>, \<lparr>spent_payer = ''A'', spent_points = - 70\<rparr>] = 120
   \<and> snd (walk_ieee (get_or_zero (payerBalances_ieee credits_ledger))
             (take 2 (sort_key timestamp credits_ledger)) ([], 120))
       = 120 - sum_list (map snd (take 2 [(''B'', 50), (''A'', 30), (''A'', 40 :: int)]))"
proof -
  have h1: "\<forall>t \<in> set credits_ledger. 0 < points t"
    by (simp add: credits_ledger_def)
  have h2: "(0::int) < 120" by simp
  have h4: "magnitude credits_ledger + 120 \<le> 2 ^ 53"
    by (simp add: credits_ledger_def magnitude_def)
  then have small: "magnitude credits_ledger \<le> 2 ^ 53" "magnitude credits_ledger + \<bar>120\<bar> \<le> 2 ^ 53"
    by simp_all
  have h3: "120 \<le> getTotalPoints_ieee credits_ledger"
    by (simp add: getTotalPoints_ieee_exact [OF small(1)]) (simp add: credits_ledger_def getTotalPoints_def)
  have run: "spendPoints_ieee credits_ledger 120 9 =
     (Inr [\<lparr>spent_payer = ''B'', spent_points = - 50\<rparr>, \<lparr>spent_payer = ''A'', spent_points = - 70\<rparr>],
      credits_ledger @ [\<lparr>payer = ''B'', points = - 50, timestamp = 9\<rparr>,
                        \<lparr>payer = ''A'', points = - 70, timestamp = 9\<rparr>])"
    by (simp add: spendPoints_ieee_exact [OF small(2)] run_credits)
  have g: "greedy 120 (sort_key timestamp credits_ledger) = [(''B'', 50), (''A'', 30), (''A'', 40)]"
    by (simp add: credits_ledger_def)
  from credits_only_greedy [OF h1 h2 h3 h4, of 9 2] obtain res where
    res: "spendPoints_ieee credits_ledger 120 9
            = (Inr res, credits_ledger @ map (\<lambda>s. \<lparr>payer = spent_payer s, points = spent_points s,
                                                   timestamp = 9\<rparr>) res)"
    and ded: "deducted res ''A'' = drawn_from (greedy 120 (sort_key timestamp credits_ledger)) ''A''"
    and tot: "total_deducted res = 120"
    and during: "snd (walk_ieee (get_or_zero (payerBalances_ieee credits_ledger))
                        (take 2 (sort_key timestamp credits_ledger)) ([], 120))
       = 120 - sum_list (map snd (take 2 (greedy 120 (sort_key timestamp credits_ledger))))"
    by blast
  from res run
  have r: "res = [\<lparr>spent_payer = ''B'', spent_points = - 50\<rparr>, \<lparr>spent_payer = ''A'', spent_points = - 70\<rparr>]"
    by simp
  from h1 have "list_all (\<lambda>t. 0 < points t) credits_ledger"
    by (simp add: list_all_iff)
  with h2 h3 h4 run g ded tot during show ?thesis
    by (simp add: r)
qed

theorem credits_only_greedy_counterexample:
  "list_all (\<lambda>t. 0 < points t) rounding_ledger
   \<and> list_all (\<lambda>t. rnd (points t) = points t) rounding_ledger
   \<and> rnd 18014398509481984 = 18014398509481984
   \<and> (0::int) < 18014398509481984
   \<and> 18014398509481984 \<le> getTotalPoints_ieee rounding_ledger
   \<and> 18014398509481984 \<le> sum_list (map points rounding_ledger)
   \<and> spendPoints_ieee rounding_ledger 18014398509481984 9 =
     (Inr [\<lparr>spent_payer = ''A'', spent_points = - 1\<rparr>,
           \<lparr>spent_payer = ''B'', spent_points = - 18014398509481984\<rparr>],
      rounding_ledger @ [\<lparr>payer = ''A'', points = - 1, timestamp = 9\<rparr>,
                         \<lparr>payer = ''B'', points = - 18014398509481984, timestamp = 9\<rparr>])
   \<and> total_deducted [\<lparr>spent_payer = ''A'', spent_points = - 1\<rparr>,
                      \<lparr>spent_payer = ''B'', spent_points = - 18014398509481984\<rparr>]
       \<noteq> 18014398509481984
   \<and> drawn_from (greedy 18014398509481984 (sort_key timestamp rounding_ledger)) ''B''
       = 18014398509481983
   \<and> deducted [\<lparr>spent_payer = ''A'', spent_points = - 1\<rparr>,
                \<lparr>spent_payer = ''B'', spent_points = - 18014398509481984\<rparr>] ''B''
       \<noteq> drawn_from (greedy 18014398509481984 (sort_key timestamp rounding_ledger)) ''B''"
proof -
  have total: "getTotalPoints_ieee rounding_ledger = 18014398509481984"
    by (simp add: getTotalPoints_ieee_def rounding_ledger_def rnd_values)
  have draws: "drawn_from (greedy 18014398509481984 (sort_key timestamp rounding_ledger)) ''B''
      = 18014398509481983"
    by (simp add: rounding_ledger_def drawn_from_def)
  from run_rounding total draws rounding_ledgers_doubles(1) show ?thesis
    by (simp add: total_deducted_def deducted_def rnd_values) (simp add: rounding_ledger_def)
qed

text \<open>
  Claim C2: from the empty ledger, after the five events of \<^const>\<open>scenario\<close>
  have been added in any order, \<^verbatim>\<open>spendPoints(5000)\<close> returns SHOPIFY -100,
  EBAY -200, AMAZON -4700 in this order and appends these three events, and
  \<^verbatim>\<open>getBalances()\<close> then maps SHOPIFY to 1000, EBAY to 0 and AMAZON to 5300, and
  no other payer.
\<close>

theorem scenario_spend_5000:
  assumes "mset dtos = mset scenario"
  shows "fst (spendPoints (add_all [] dtos) 5000 now) = Inr scenario_result
       \<and> snd (spendPoints (add_all [] dtos) 5000 now)
           = add_all [] dtos
             @ [\<lparr>payer = ''SHOPIFY'', points = - 100, timestamp = now\<rparr>,
                \<lparr>payer = ''EBAY'', points = - 200, timestamp = now\<rparr>,
                \<lparr>payer = ''AMAZON'', points = - 4700, timestamp = now\<rparr>]
       \<and> getBalances (snd (spendPoints (add_all [] dtos) 5000 now))
           = [''SHOPIFY'' \<mapsto> 1000, ''EBAY'' \<mapsto> 0, ''AMAZON'' \<mapsto> 5300]"
proof -
  let ?new = "map (\<lambda>s. \<lparr>payer = spent_payer s, points = spent_points s, timestamp = now\<rparr>)
                scenario_result"
  have ledger: "add_all [] dtos = dtos"
    by (simp add: add_all_append)
  have "distinct (map timestamp scenario)"
    by (simp add: scenario_def)
  with assms have run: "spendPoints dtos 5000 now = (Inr scenario_result, dtos @ ?new)"
    using run_scenario by (rule spendPoints_perm)
  from assms have "mset (dtos @ ?new) = mset (scenario @ ?new)" by simp
  then have "getBalances (dtos @ ?new) = getBalances (scenario @ ?new)"
    by (rule getBalances_perm)
  with run scenario_balances_after [of now] show ?thesis
    by (simp add: ledger) (simp add: scenario_result_def)
qed

theorem scenario_spend_5000_witness:
  "mset (rev scenario) = mset scenario
   \<and> fst (spendPoints (add_all [] (rev scenario)) 5000 9) = Inr scenario_result
   \<and> getBalances (snd (spendPoints (add_all [] (rev scenario)) 5000 9))
       = [''SHOPIFY'' \<mapsto> 1000, ''EBAY'' \<mapsto> 0, ''AMAZON'' \<mapsto> 5300]"
proof -
  have h: "mset (rev scenario) = mset scenario" by simp
  from scenario_spend_5000 [OF h, of 9] h show ?thesis
    by blast
qed

end
